theory Spec2Isabelle
  imports Complex_Main "HOL-Library.Word" "HOL-Library.Signed_Division" "HOL-Library.Monad_Syntax"
begin

unbundle bit_operations_syntax

section \<open>Numeric conventions\<close>

text \<open>
  The C++ type \<^verbatim>\<open>dip::dfloat\<close> is \<^verbatim>\<open>double\<close>.  Its finite values are modelled by
  \<^typ>\<open>real\<close> and its arithmetic by exact real arithmetic: rounding, overflow to
  infinity and underflow are outside this development.  What is kept is the one way in which
  finite operands produce a value that is not a number: a division whose divisor is zero
  (IEEE 754 yields an infinity or a NaN).  Such a division is the value \<open>None\<close>.

  \<^verbatim>\<open>dip::uint\<close> is \<^verbatim>\<open>std::size_t\<close> and \<^verbatim>\<open>dip::sint\<close> is \<^verbatim>\<open>std::ptrdiff_t\<close>; both are
  taken at 64 bits (an LP64 platform), as \<^typ>\<open>64 word\<close>, whose \<open>+\<close>, \<open>-\<close> and \<open>*\<close>
  wrap around.
\<close>

type_synonym dfloat = real
type_synonym uint = "64 word"
type_synonym sint = "64 word"

definition rdiv :: "dfloat \<Rightarrow> dfloat \<Rightarrow> dfloat option" where
  "rdiv x y = (if y = 0 then None else Some (x / y))"

text \<open>\<^verbatim>\<open>std::numeric_limits< dfloat >::max()\<close> is the largest finite double,
  \<^verbatim>\<open>(2 - 2^-52) * 2^1023\<close>; \<^verbatim>\<open>lowest()\<close> is its negation.\<close>

definition DBL_MAX :: dfloat where
  "DBL_MAX = 2 ^ 1024 - 2 ^ 971"

section \<open>Double-precision arithmetic\<close>

text \<open>
  A \<^verbatim>\<open>double\<close> is an IEEE 754 binary64 value: a finite number, one of the two infinities
  or a NaN.  The finite doubles are the reals \<open>m \<sqdot> 2\<^sup>e\<close> with \<open>\<bar>m\<bar> < 2\<^sup>5\<^sup>3\<close> and
  \<open>-1074 \<le> e \<le> 971\<close>.  The sign of a zero is not kept: \<^verbatim>\<open>-0.0\<close> and \<^verbatim>\<open>0.0\<close>, which
  compare equal, are the one value \<open>Finite 0\<close>, and a division of a non-zero number by zero
  has the sign of its dividend.
\<close>

datatype double = Finite real | PInf | NInf | NaN

text \<open>
  An arithmetic is the function that turns the exact result of an operation on finite
  operands into the value the operation returns.  The code runs in \<open>binary64\<close>, rounding to
  nearest with ties to even; \<open>exact\<close> is the arithmetic without rounding that some of the
  statements about the code refer to.
\<close>

type_synonym arithmetic = "real \<Rightarrow> double"

definition exact :: arithmetic where
  "exact x = Finite x"

definition round_even :: "real \<Rightarrow> int" where
  "round_even q =
     (let f = \<lfloor>q\<rfloor>; d = q - of_int f
      in if d < 1 / 2 then f else if 1 / 2 < d then f + 1 else if even f then f else f + 1)"

text \<open>
  The unit in the last place of \<open>x\<close> is \<open>2\<^sup>e\<close> with \<open>e = \<lfloor>log\<^sub>2 \<bar>x\<bar>\<rfloor> - 52\<close>, and \<open>2\<^sup>-\<^sup>1\<^sup>0\<^sup>7\<^sup>4\<close>
  in the subnormal range; a result beyond the largest double is an infinity.
\<close>

definition binary64 :: arithmetic where
  "binary64 x =
     (if x = 0 then Finite 0
      else let e = max (\<lfloor>log 2 \<bar>x\<bar>\<rfloor> - 52) (- 1074);
               y = of_int (round_even (x / 2 powi e)) * 2 powi e
           in if DBL_MAX < \<bar>y\<bar> then (if 0 < x then PInf else NInf) else Finite y)"

text \<open>The values that a variable of type \<^verbatim>\<open>double\<close> can hold.\<close>

definition is_double :: "double \<Rightarrow> bool" where
  "is_double a = (case a of Finite x \<Rightarrow> binary64 x = Finite x | _ \<Rightarrow> True)"

definition infinity :: "bool \<Rightarrow> double" where
  "infinity positive = (if positive then PInf else NInf)"

text \<open>The sign of a value that is neither zero nor a NaN.\<close>

fun positive :: "double \<Rightarrow> bool" where
  "positive (Finite x) = (0 < x)"
| "positive PInf = True"
| "positive NInf = False"
| "positive NaN = False"

fun fneg :: "double \<Rightarrow> double" where
  "fneg (Finite x) = Finite (- x)"
| "fneg PInf = NInf"
| "fneg NInf = PInf"
| "fneg NaN = NaN"

fun fadd :: "arithmetic \<Rightarrow> double \<Rightarrow> double \<Rightarrow> double" where
  "fadd r (Finite x) (Finite y) = r (x + y)"
| "fadd r NaN b = NaN"
| "fadd r a NaN = NaN"
| "fadd r PInf NInf = NaN"
| "fadd r NInf PInf = NaN"
| "fadd r PInf b = PInf"
| "fadd r NInf b = NInf"
| "fadd r a PInf = PInf"
| "fadd r a NInf = NInf"

definition fsub :: "arithmetic \<Rightarrow> double \<Rightarrow> double \<Rightarrow> double" where
  "fsub r a b = fadd r a (fneg b)"

fun fmul :: "arithmetic \<Rightarrow> double \<Rightarrow> double \<Rightarrow> double" where
  "fmul r (Finite x) (Finite y) = r (x * y)"
| "fmul r NaN b = NaN"
| "fmul r a NaN = NaN"
| "fmul r a b =
     (if a = Finite 0 \<or> b = Finite 0 then NaN else infinity (positive a = positive b))"

fun fdiv :: "arithmetic \<Rightarrow> double \<Rightarrow> double \<Rightarrow> double" where
  "fdiv r (Finite x) (Finite y) =
     (if y = 0 then (if x = 0 then NaN else infinity (0 < x)) else r (x / y))"
| "fdiv r NaN b = NaN"
| "fdiv r a NaN = NaN"
| "fdiv r (Finite x) b = Finite 0"
| "fdiv r a (Finite y) = infinity (positive a = (0 \<le> y))"
| "fdiv r a b = NaN"

text \<open>The comparison \<^verbatim>\<open>a < b\<close>, false when an operand is a NaN.\<close>

fun flt :: "double \<Rightarrow> double \<Rightarrow> bool" where
  "flt (Finite x) (Finite y) = (x < y)"
| "flt NaN b = False"
| "flt a NaN = False"
| "flt PInf b = False"
| "flt a NInf = False"
| "flt a b = True"

text \<open>
  \<^verbatim>\<open>std::sqrt\<close> and \<^verbatim>\<open>std::pow( x, 1.5 )\<close>, taken as correctly rounded; both yield a NaN for a
  negative finite argument.
\<close>

fun std_sqrt :: "arithmetic \<Rightarrow> double \<Rightarrow> double" where
  "std_sqrt r (Finite x) = (if x < 0 then NaN else r (sqrt x))"
| "std_sqrt r PInf = PInf"
| "std_sqrt r NInf = NaN"
| "std_sqrt r NaN = NaN"

fun std_pow_1_5 :: "arithmetic \<Rightarrow> double \<Rightarrow> double" where
  "std_pow_1_5 r (Finite x) = (if x < 0 then NaN else r (x powr (3 / 2)))"
| "std_pow_1_5 r PInf = PInf"
| "std_pow_1_5 r NInf = PInf"
| "std_pow_1_5 r NaN = NaN"

text \<open>\<^verbatim>\<open>std::max( a, b )\<close> is \<^verbatim>\<open>(a < b) ? b : a\<close> and \<^verbatim>\<open>std::min( a, b )\<close> is
  \<^verbatim>\<open>(b < a) ? b : a\<close>.\<close>

definition std_max :: "double \<Rightarrow> double \<Rightarrow> double" where
  "std_max a b = (if flt a b then b else a)"

definition std_min :: "double \<Rightarrow> double \<Rightarrow> double" where
  "std_min a b = (if flt b a then b else a)"

text \<open>The conversion of a \<^verbatim>\<open>dip::uint\<close> to \<^verbatim>\<open>double\<close>, implicit in mixed arithmetic.\<close>

definition dbl :: "arithmetic \<Rightarrow> uint \<Rightarrow> double" where
  "dbl r n = r (real (unat n))"

section \<open>Integer division variants (signed overloads)\<close>

text \<open>
  The operator \<^verbatim>\<open>/\<close> on \<^verbatim>\<open>dip::sint\<close> truncates towards zero.  It has no value when the
  divisor is zero or when the least value is divided by \<open>-1\<close> (the quotient is not
  representable); both are \<open>None\<close>.  The operators \<^verbatim>\<open>*\<close>, \<^verbatim>\<open>+\<close> and \<^verbatim>\<open>-\<close> are those of
  the two's-complement machine: they wrap around.
\<close>

definition sint_div :: "sint \<Rightarrow> sint \<Rightarrow> sint option" where
  "sint_div a b =
     (if b = 0 \<or> (sint a = - (2 ^ 63) \<and> sint b = - 1) then None
      else Some (word_of_int (sint a sdiv sint b)))"

text \<open>\<^verbatim>\<open>inline dip::sint div_ceil( dip::sint lhs, dip::sint rhs )\<close>\<close>

definition div_ceil :: "sint \<Rightarrow> sint \<Rightarrow> sint option" where
  "div_ceil lhs rhs =
     (if lhs * rhs = 0 then Some 0
      else if lhs * rhs <s 0 then sint_div lhs rhs
      else if lhs <s 0 then map_option (\<lambda>q. q + 1) (sint_div (lhs + 1) rhs)
      else map_option (\<lambda>q. q + 1) (sint_div (lhs - 1) rhs))"

text \<open>\<^verbatim>\<open>inline dip::sint div_floor( dip::sint lhs, dip::sint rhs )\<close>\<close>

definition div_floor :: "sint \<Rightarrow> sint \<Rightarrow> sint option" where
  "div_floor lhs rhs =
     (if lhs * rhs = 0 then Some 0
      else if lhs * rhs <s 0 then
        (if lhs <s 0 then map_option (\<lambda>q. q - 1) (sint_div (lhs + 1) rhs)
         else map_option (\<lambda>q. q - 1) (sint_div (lhs - 1) rhs))
      else sint_div lhs rhs)"

text \<open>\<^verbatim>\<open>inline dip::sint div_round( dip::sint lhs, dip::sint rhs )\<close>\<close>

definition div_round :: "sint \<Rightarrow> sint \<Rightarrow> sint option" where
  "div_round lhs rhs =
     (case sint_div rhs 2 of
        None \<Rightarrow> None
      | Some half \<Rightarrow> div_floor (lhs + half) rhs)"

text \<open>The values a \<^verbatim>\<open>dip::sint\<close> can hold.\<close>

definition sint_range :: "int \<Rightarrow> bool" where
  "sint_range k \<longleftrightarrow> - (2 ^ 63) \<le> k \<and> k < 2 ^ 63"

section \<open>Integer powers of ten\<close>

text \<open>
  \<^verbatim>\<open>inline dfloat pow10( dip::sint power )\<close>.  The \<^verbatim>\<open>switch\<close> is the chain of tests in
  the order of its \<^verbatim>\<open>case\<close> labels; a literal such as \<^verbatim>\<open>1e-6\<close> is the double nearest to
  the decimal number.  The function calls itself before it multiplies, so every level of
  the recursion occupies a stack frame until the innermost call has returned: the second
  argument is the number of frames that the stack can still take, and the result is \<open>None\<close>
  when the recursion needs more.
\<close>

fun pow10 :: "arithmetic \<Rightarrow> nat \<Rightarrow> sint \<Rightarrow> double option" where
  "pow10 r 0 pwr = None"
| "pow10 r (Suc frames) pwr =
     (if pwr = - 6 then Some (r (1 / 10 ^ 6))
      else if pwr = - 5 then Some (r (1 / 10 ^ 5))
      else if pwr = - 4 then Some (r (1 / 10 ^ 4))
      else if pwr = - 3 then Some (r (1 / 10 ^ 3))
      else if pwr = - 2 then Some (r (1 / 10 ^ 2))
      else if pwr = - 1 then Some (r (1 / 10 ^ 1))
      else if pwr = 0 then Some (r 1)
      else if pwr = 1 then Some (r (10 ^ 1))
      else if pwr = 2 then Some (r (10 ^ 2))
      else if pwr = 3 then Some (r (10 ^ 3))
      else if pwr = 4 then Some (r (10 ^ 4))
      else if pwr = 5 then Some (r (10 ^ 5))
      else if pwr = 6 then Some (r (10 ^ 6))
      else if 0 <s pwr then
        (case pow10 r frames (pwr - 6) of
           None \<Rightarrow> None
         | Some p \<Rightarrow> Some (fmul r (r (10 ^ 6)) p))
      else
        (case pow10 r frames (pwr + 6) of
           None \<Rightarrow> None
         | Some p \<Rightarrow> Some (fmul r (r (1 / 10 ^ 6)) p)))"

declare pow10.simps(2) [simp del]

text \<open>The number of nested calls that \<^verbatim>\<open>pow10( k )\<close> makes, itself included.\<close>

definition pow10_depth :: "int \<Rightarrow> nat" where
  "pow10_depth k = (if \<bar>k\<bar> \<le> 6 then 1 else nat ((\<bar>k\<bar> + 5) div 6))"

section \<open>Packed symmetric eigendecomposition\<close>

text \<open>
  \<^verbatim>\<open>DIP_THROW\<close> and \<^verbatim>\<open>DIP_THROW_IF\<close> raise an exception; a raised exception is a value of
  type \<open>error\<close>.  The two named messages are those of \<^verbatim>\<open>E::IMAGE_NOT_SCALAR\<close> and
  \<^verbatim>\<open>E::DIMENSIONALITY_NOT_SUPPORTED\<close>.
\<close>

datatype error =
    ParameterError string
  | IMAGE_NOT_SCALAR
  | DIMENSIONALITY_NOT_SUPPORTED

text \<open>
  A \<^verbatim>\<open>ConstSampleIterator< dfloat >\<close> is read by index only: it is the function from an
  index to the sample read there.  The local array \<^verbatim>\<open>dfloat matrix[ 9 ]\<close> starts
  uninitialised: an element holds \<open>None\<close> until it is assigned.

  \<^verbatim>\<open>SymmetricEigenDecomposition\<close> is declared in the header and defined elsewhere; it is
  the parameter \<open>SED\<close>, a function of its four arguments that transforms the memory \<open>'s\<close>
  the output iterators \<open>lambdas\<close> and \<open>vectors\<close> point into.  The result is the exception
  raised, if any, and the memory after the call.
\<close>

type_synonym 'a ConstSampleIterator = "nat \<Rightarrow> 'a"

definition SymmetricEigenDecompositionPacked ::
  "(nat \<Rightarrow> dfloat option list \<Rightarrow> 'p \<Rightarrow> 'p \<Rightarrow> 's \<Rightarrow> 's)
    \<Rightarrow> nat \<Rightarrow> dfloat ConstSampleIterator \<Rightarrow> 'p \<Rightarrow> 'p \<Rightarrow> 's \<Rightarrow> error option \<times> 's" where
  "SymmetricEigenDecompositionPacked SED n input lambdas vectors s =
     (let matrix = replicate 9 None in
      if n = 2 then
        (let matrix = matrix[0 := Some (input 0)];
             matrix = matrix[1 := Some (input 2)];
             matrix = matrix[3 := Some (input 1)]
         in (None, SED n matrix lambdas vectors s))
      else if n = 3 then
        (let matrix = matrix[0 := Some (input 0)];
             matrix = matrix[1 := Some (input 3)];
             matrix = matrix[2 := Some (input 4)];
             matrix = matrix[4 := Some (input 1)];
             matrix = matrix[5 := Some (input 5)];
             matrix = matrix[8 := Some (input 2)]
         in (None, SED n matrix lambdas vectors s))
      else
        (Some (ParameterError
           ''dip::SymmetricEigenDecompositionPacked only defined for n=2 or n=3''), s))"

text \<open>
  The documented packed layouts, \<^verbatim>\<open>{ xx, yy, xy }\<close> and \<^verbatim>\<open>{ xx, yy, zz, xy, xz, yz }\<close>:
  the position in the packed input of the element in row \<open>i\<close> and column \<open>j\<close> of the
  symmetric matrix, for \<open>j \<le> i\<close>.
\<close>

definition packed_position :: "nat \<Rightarrow> nat \<Rightarrow> nat \<Rightarrow> nat" where
  "packed_position n i j =
     (if i = j then i
      else if n = 2 then 2
      else if (i, j) = (1, 0) then 3
      else if (i, j) = (2, 0) then 4
      else 5)"

section \<open>StatisticsAccumulator and VarianceAccumulator\<close>

text \<open>The conversion of a \<^verbatim>\<open>dip::uint\<close> to \<^verbatim>\<open>dfloat\<close>, implicit in mixed arithmetic.\<close>

definition dfl :: "uint \<Rightarrow> dfloat" where
  "dfl w = real (unat w)"

text \<open>
  \<^verbatim>\<open>std::sqrt\<close> and \<^verbatim>\<open>std::pow( x, 1.5 )\<close> yield a NaN for a negative argument; as for a
  division by zero, that result is \<open>None\<close>.
\<close>

definition rstd_sqrt :: "dfloat \<Rightarrow> dfloat option" where
  "rstd_sqrt x = (if x < 0 then None else Some (sqrt x))"


subsection \<open>StatisticsAccumulator\<close>

record StatisticsAccumulator =
  sa_n :: uint
  sa_m1 :: dfloat
  sa_m2 :: dfloat
  sa_m3 :: dfloat
  sa_m4 :: dfloat

text \<open>The default member initialisers.\<close>

definition Statistics_empty :: StatisticsAccumulator where
  "Statistics_empty = \<lparr>sa_n = 0, sa_m1 = 0, sa_m2 = 0, sa_m3 = 0, sa_m4 = 0\<rparr>"

text \<open>
  \<^verbatim>\<open>void Push( dfloat x )\<close>.  The operands \<^verbatim>\<open>n_ * n_\<close>, \<^verbatim>\<open>n_ - 1\<close> and \<^verbatim>\<open>n_ - 2\<close> are computed
  in \<^verbatim>\<open>dip::uint\<close> before their conversion; the updates of \<^verbatim>\<open>m4_\<close>, \<^verbatim>\<open>m3_\<close> and \<^verbatim>\<open>m2_\<close>
  read the fields as they were before the call.
\<close>

definition Statistics_Push :: "StatisticsAccumulator \<Rightarrow> dfloat \<Rightarrow> StatisticsAccumulator option" where
  "Statistics_Push a x =
     (let n = sa_n a + 1;
          delta = x - sa_m1 a
      in case rdiv delta (dfl n) of
           None \<Rightarrow> None
         | Some term1 \<Rightarrow>
            (let term2 = term1 * term1;
                 term3 = delta * term1 * dfl (n - 1)
             in Some \<lparr>sa_n = n,
                      sa_m1 = sa_m1 a + term1,
                      sa_m2 = sa_m2 a + term3,
                      sa_m3 = sa_m3 a + (term3 * term1 * dfl (n - 2) - 3 * term1 * sa_m2 a),
                      sa_m4 = sa_m4 a + (term3 * term2 * (dfl (n * n) - 3 * dfl n + 3)
                                + 6 * term2 * sa_m2 a - 4 * term1 * sa_m3 a)\<rparr>))"

text \<open>
  \<^verbatim>\<open>StatisticsAccumulator& operator+=( StatisticsAccumulator const& b )\<close>, and with it
  \<^verbatim>\<open>operator+\<close>, which applies it to a copy of its left operand.  The locals \<^verbatim>\<open>an2\<close>,
  \<^verbatim>\<open>bn2\<close>, \<^verbatim>\<open>xn2\<close>, \<^verbatim>\<open>n2\<close> and the operands \<^verbatim>\<open>n2 * n_\<close>, \<^verbatim>\<open>an2 - xn2 + bn2\<close> and
  \<^verbatim>\<open>an - b.n_\<close> are \<^verbatim>\<open>dip::uint\<close> values.  The three divisors are \<^verbatim>\<open>n2 * n_\<close>, \<^verbatim>\<open>n2\<close> and
  \<^verbatim>\<open>n_\<close>.
\<close>

definition Statistics_merge ::
  "StatisticsAccumulator \<Rightarrow> StatisticsAccumulator \<Rightarrow> StatisticsAccumulator option" where
  "Statistics_merge a b =
     (let an = sa_n a;
          an2 = an * an;
          bn2 = sa_n b * sa_n b;
          xn2 = an * sa_n b;
          n = an + sa_n b;
          n2 = n * n;
          delta = sa_m1 b - sa_m1 a;
          delta2 = delta * delta
      in if dfl (n2 * n) = 0 \<or> dfl n2 = 0 \<or> dfl n = 0 then None
         else Some
           \<lparr>sa_n = n,
            sa_m1 = (dfl an * sa_m1 a + dfl (sa_n b) * sa_m1 b) / dfl n,
            sa_m2 = sa_m2 a + (sa_m2 b + delta2 * dfl xn2 / dfl n),
            sa_m3 = sa_m3 a + (sa_m3 b + delta * delta2 * dfl xn2 * dfl (an - sa_n b) / dfl n2
                      + 3 * delta * (dfl an * sa_m2 b - dfl (sa_n b) * sa_m2 a) / dfl n),
            sa_m4 = sa_m4 a + (sa_m4 b
                      + delta2 * delta2 * dfl xn2 * dfl (an2 - xn2 + bn2) / dfl (n2 * n)
                      + 6 * delta2 * (dfl an2 * sa_m2 b + dfl bn2 * sa_m2 a) / dfl n2
                      + 4 * delta * (dfl an * sa_m3 b - dfl (sa_n b) * sa_m3 a) / dfl n)\<rparr>)"

definition Statistics_Number :: "StatisticsAccumulator \<Rightarrow> uint" where
  "Statistics_Number a = sa_n a"

definition Statistics_Mean :: "StatisticsAccumulator \<Rightarrow> dfloat" where
  "Statistics_Mean a = sa_m1 a"

definition Statistics_Variance :: "StatisticsAccumulator \<Rightarrow> dfloat option" where
  "Statistics_Variance a =
     (if 1 < sa_n a then rdiv (sa_m2 a) (dfl (sa_n a - 1)) else Some 0)"

definition Statistics_StandardDeviation :: "StatisticsAccumulator \<Rightarrow> dfloat option" where
  "Statistics_StandardDeviation a =
     (case Statistics_Variance a of None \<Rightarrow> None | Some v \<Rightarrow> rstd_sqrt v)"



subsection \<open>VarianceAccumulator\<close>

record VarianceAccumulator =
  va_n :: uint
  va_m1 :: dfloat
  va_m2 :: dfloat

definition Variance_empty :: VarianceAccumulator where
  "Variance_empty = \<lparr>va_n = 0, va_m1 = 0, va_m2 = 0\<rparr>"

text \<open>\<^verbatim>\<open>void Push( dfloat x )\<close>; the update of \<^verbatim>\<open>m2_\<close> reads the new \<^verbatim>\<open>m1_\<close>.\<close>

definition Variance_Push :: "VarianceAccumulator \<Rightarrow> dfloat \<Rightarrow> VarianceAccumulator option" where
  "Variance_Push a x =
     (let n = va_n a + 1;
          delta = x - va_m1 a
      in case rdiv delta (dfl n) of
           None \<Rightarrow> None
         | Some q \<Rightarrow>
            (let m1 = va_m1 a + q
             in Some \<lparr>va_n = n, va_m1 = m1, va_m2 = va_m2 a + delta * (x - m1)\<rparr>))"

text \<open>\<^verbatim>\<open>VarianceAccumulator& operator+=( VarianceAccumulator const& b )\<close>; the product
  \<^verbatim>\<open>oldn * b.n_\<close> is a \<^verbatim>\<open>dip::uint\<close> value.\<close>

definition Variance_merge ::
  "VarianceAccumulator \<Rightarrow> VarianceAccumulator \<Rightarrow> VarianceAccumulator option" where
  "Variance_merge a b =
     (let oldn = va_n a;
          n = oldn + va_n b;
          delta = va_m1 b - va_m1 a
      in if dfl n = 0 then None
         else Some
           \<lparr>va_n = n,
            va_m1 = (dfl oldn * va_m1 a + dfl (va_n b) * va_m1 b) / dfl n,
            va_m2 = va_m2 a + (va_m2 b + delta * delta * dfl (oldn * va_n b) / dfl n)\<rparr>)"

definition Variance_Number :: "VarianceAccumulator \<Rightarrow> uint" where
  "Variance_Number a = va_n a"

definition Variance_Mean :: "VarianceAccumulator \<Rightarrow> dfloat" where
  "Variance_Mean a = va_m1 a"

definition Variance_Variance :: "VarianceAccumulator \<Rightarrow> dfloat option" where
  "Variance_Variance a =
     (if 1 < va_n a then rdiv (va_m2 a) (dfl (va_n a - 1)) else Some 0)"

definition Variance_StandardDeviation :: "VarianceAccumulator \<Rightarrow> dfloat option" where
  "Variance_StandardDeviation a =
     (case Variance_Variance a of None \<Rightarrow> None | Some v \<Rightarrow> rstd_sqrt v)"

subsection \<open>Sequences of calls\<close>

text \<open>Pushing the samples of a list one by one, first to last.\<close>

fun Statistics_PushAll ::
  "StatisticsAccumulator \<Rightarrow> dfloat list \<Rightarrow> StatisticsAccumulator option" where
  "Statistics_PushAll a [] = Some a"
| "Statistics_PushAll a (x # xs) =
     (case Statistics_Push a x of None \<Rightarrow> None | Some a' \<Rightarrow> Statistics_PushAll a' xs)"

fun Variance_PushAll ::
  "VarianceAccumulator \<Rightarrow> dfloat list \<Rightarrow> VarianceAccumulator option" where
  "Variance_PushAll a [] = Some a"
| "Variance_PushAll a (x # xs) =
     (case Variance_Push a x of None \<Rightarrow> None | Some a' \<Rightarrow> Variance_PushAll a' xs)"

text \<open>
  The states of a StatisticsAccumulator that calls of \<^verbatim>\<open>Push\<close> and of \<^verbatim>\<open>operator+\<close> reach
  from default-constructed accumulators.
\<close>

inductive Statistics_reachable :: "StatisticsAccumulator \<Rightarrow> bool" where
  empty: "Statistics_reachable Statistics_empty"
| push: "Statistics_reachable a \<Longrightarrow> Statistics_Push a x = Some a' \<Longrightarrow> Statistics_reachable a'"
| merge: "Statistics_reachable a \<Longrightarrow> Statistics_reachable b \<Longrightarrow> Statistics_merge a b = Some c
           \<Longrightarrow> Statistics_reachable c"





text \<open>The part of a StatisticsAccumulator that a VarianceAccumulator also holds.\<close>

definition first_two :: "StatisticsAccumulator \<Rightarrow> VarianceAccumulator" where
  "first_two s = \<lparr>va_n = sa_n s, va_m1 = sa_m1 s, va_m2 = sa_m2 s\<rparr>"



section \<open>MinMaxAccumulator\<close>

record MinMaxAccumulator =
  mm_min :: double
  mm_max :: double

text \<open>The default member initialisers: \<^verbatim>\<open>std::numeric_limits< dfloat >::max()\<close> and
  \<^verbatim>\<open>lowest()\<close>.\<close>

definition MinMax_init :: MinMaxAccumulator where
  "MinMax_init = \<lparr>mm_min = Finite DBL_MAX, mm_max = Finite (- DBL_MAX)\<rparr>"

text \<open>\<^verbatim>\<open>void Push( dfloat x )\<close>\<close>

definition MinMax_Push :: "MinMaxAccumulator \<Rightarrow> double \<Rightarrow> MinMaxAccumulator" where
  "MinMax_Push a x = \<lparr>mm_min = std_min (mm_min a) x, mm_max = std_max (mm_max a) x\<rparr>"

text \<open>\<^verbatim>\<open>void Push( dfloat x, dfloat y )\<close>; the test \<^verbatim>\<open>x > y\<close> is \<^verbatim>\<open>y < x\<close>.\<close>

definition MinMax_Push2 :: "MinMaxAccumulator \<Rightarrow> double \<Rightarrow> double \<Rightarrow> MinMaxAccumulator" where
  "MinMax_Push2 a x y =
     (if flt y x
      then \<lparr>mm_min = std_min (mm_min a) y, mm_max = std_max (mm_max a) x\<rparr>
      else \<lparr>mm_min = std_min (mm_min a) x, mm_max = std_max (mm_max a) y\<rparr>)"

definition Minimum :: "MinMaxAccumulator \<Rightarrow> double" where
  "Minimum a = mm_min a"

definition Maximum :: "MinMaxAccumulator \<Rightarrow> double" where
  "Maximum a = mm_max a"

text \<open>A sequence of calls of the two overloads of \<^verbatim>\<open>Push\<close>, and the values it pushes.\<close>

datatype push_call = Single double | Pair double double

fun MinMax_call :: "MinMaxAccumulator \<Rightarrow> push_call \<Rightarrow> MinMaxAccumulator" where
  "MinMax_call a (Single x) = MinMax_Push a x"
| "MinMax_call a (Pair x y) = MinMax_Push2 a x y"

definition MinMax_run :: "MinMaxAccumulator \<Rightarrow> push_call list \<Rightarrow> MinMaxAccumulator" where
  "MinMax_run a cs = foldl MinMax_call a cs"

fun pushed :: "push_call \<Rightarrow> double list" where
  "pushed (Single x) = [x]"
| "pushed (Pair x y) = [x, y]"

definition pushed_values :: "push_call list \<Rightarrow> double list" where
  "pushed_values cs = concat (map pushed cs)"

text \<open>The pushed values that are numbers.\<close>

definition pushed_numbers :: "push_call list \<Rightarrow> double list" where
  "pushed_numbers cs = filter (\<lambda>v. v \<noteq> NaN) (pushed_values cs)"

text \<open>A call of the pair overload with a NaN operand.\<close>

fun NaN_in_pair :: "push_call \<Rightarrow> bool" where
  "NaN_in_pair (Single x) = False"
| "NaN_in_pair (Pair x y) = (x = NaN \<or> y = NaN)"

text \<open>
  A least and a greatest element of a list of doubles, for the comparison \<^verbatim>\<open><\<close> of the
  code.
\<close>

definition least :: "double list \<Rightarrow> double \<Rightarrow> bool" where
  "least vs m \<longleftrightarrow> m \<in> set vs \<and> (\<forall>v \<in> set vs. \<not> flt v m)"

definition greatest :: "double list \<Rightarrow> double \<Rightarrow> bool" where
  "greatest vs m \<longleftrightarrow> m \<in> set vs \<and> (\<forall>v \<in> set vs. \<not> flt m v)"

section \<open>The GreyMu measurement feature\<close>

subsection \<open>What the feature uses of an image and of physical quantities\<close>

text \<open>
  The classes \<^verbatim>\<open>Image\<close>, \<^verbatim>\<open>PhysicalQuantity\<close> and \<^verbatim>\<open>Units\<close> are declared outside the files
  at hand.  An image is the three queries the feature makes; a physical quantity is its
  two public members; the type of units is a parameter \<open>'u\<close>, and so are the test
  \<^verbatim>\<open>IsPhysical()\<close>, the product of units and the pixel units.
\<close>

record 'u PhysicalQuantity =
  magnitude :: dfloat
  units :: 'u

record 'u Image =
  Dimensionality :: nat
  PixelSize :: "nat \<Rightarrow> 'u PhysicalQuantity"
  IsScalar :: bool

record 'u Units =
  IsPhysical :: "'u PhysicalQuantity \<Rightarrow> bool"
  times_units :: "'u \<Rightarrow> 'u \<Rightarrow> 'u"
  pixel_units :: 'u

text \<open>
  Modelled from the spec: \<^verbatim>\<open>PhysicalQuantity::Pixel()\<close>, whose definition is not in the files
  at hand.  A dimension that lacks physical calibration defaults to the unit "pixel"
  scale of 1.
\<close>

definition Pixel :: "'u Units \<Rightarrow> 'u PhysicalQuantity" where
  "Pixel U = \<lparr>magnitude = 1, units = pixel_units U\<rparr>"

record 'u ValueInformation =
  name :: string
  value_units :: 'u

subsection \<open>FeatureGreyMu\<close>

text \<open>The private members.  \<^verbatim>\<open>data_\<close> holds \<^verbatim>\<open>nValues_\<close> sums for each object, in the
  format \<^verbatim>\<open>x y xx xy yy sum\<close> in 2D and \<^verbatim>\<open>x y z xx xy xz yy yz zz sum\<close> in 3D.\<close>

record FeatureGreyMu =
  nD :: nat
  nValues :: nat
  scales :: "dfloat list"
  data :: "dfloat list"

text \<open>The pixel size of a dimension as \<^verbatim>\<open>Initialize\<close> takes it: replaced by
  \<^verbatim>\<open>PhysicalQuantity::Pixel()\<close> when it is not physical.\<close>

definition size_or_pixel :: "'u Units \<Rightarrow> 'u Image \<Rightarrow> nat \<Rightarrow> 'u PhysicalQuantity" where
  "size_or_pixel U label ii =
     (let pq = PixelSize label ii in if \<not> IsPhysical U pq then Pixel U else pq)"

text \<open>The pairs of dimensions in the order in which the two loops of \<^verbatim>\<open>Initialize\<close> visit
  them and advance \<^verbatim>\<open>kk\<close>: first \<open>(ii, ii)\<close> for every dimension, then \<open>(ii, jj)\<close> for
  \<open>jj < ii\<close>.\<close>

definition Initialize_pairs :: "nat \<Rightarrow> (nat \<times> nat) list" where
  "Initialize_pairs n =
     map (\<lambda>ii. (ii, ii)) [0..<n] @ concat (map (\<lambda>ii. map (\<lambda>jj. (ii, jj)) [0..<ii]) [1..<n])"

definition dims :: string where
  "dims = ''xyz''"

text \<open>\<^verbatim>\<open>ValueInformationArray Initialize( Image const& label, Image const& grey,
  dip::uint nObjects )\<close>: the exception raised, or the array returned and the members set.\<close>

definition Initialize ::
  "'u Units \<Rightarrow> 'u Image \<Rightarrow> 'u Image \<Rightarrow> nat \<Rightarrow> error + ('u ValueInformation list \<times> FeatureGreyMu)" where
  "Initialize U label grey nObjects =
     (if \<not> IsScalar grey then Inl IMAGE_NOT_SCALAR
      else
        let n = Dimensionality label in
        if n < 2 \<or> n > 3 then Inl DIMENSIONALITY_NOT_SUPPORTED
        else
          let nOut = (if n = 2 then 3 else 6 :: nat);
              nv = n + nOut + 1;
              ps = Initialize_pairs n;
              sc = map (\<lambda>(ii, jj). magnitude (size_or_pixel U label ii)
                                     * magnitude (size_or_pixel U label jj)) ps;
              out = map (\<lambda>(ii, jj).
                      \<lparr>name = ''Mu_'' @ [dims ! ii] @ [dims ! jj],
                       value_units = times_units U (units (size_or_pixel U label ii))
                                                  (units (size_or_pixel U label jj))\<rparr>) ps
          in Inr (out, \<lparr>nD = n, nValues = nv, scales = sc,
                        data = replicate (nObjects * nv) 0\<rparr>))"

text \<open>\<^verbatim>\<open>data[ i ] += v\<close>\<close>

definition add_at :: "dfloat list \<Rightarrow> nat \<Rightarrow> dfloat \<Rightarrow> dfloat list" where
  "add_at d i v = d[i := d ! i + v]"

text \<open>The pairs \<open>(ii, jj)\<close>, \<open>ii \<le> jj\<close>, in the order of the nested loop of \<^verbatim>\<open>ScanLine\<close>.\<close>

definition ScanLine_pairs :: "nat \<Rightarrow> (nat \<times> nat) list" where
  "ScanLine_pairs n = concat (map (\<lambda>ii. map (\<lambda>jj. (ii, jj)) [ii..<n]) [0..<n])"

text \<open>The updates of one pixel of an object whose record starts at \<open>base\<close>: the three
  statements under \<^verbatim>\<open>if( data )\<close>.  The product of two coordinates is a \<^verbatim>\<open>dip::uint\<close>
  product.\<close>

definition accumulate :: "nat \<Rightarrow> nat \<Rightarrow> uint list \<Rightarrow> dfloat \<Rightarrow> dfloat list \<Rightarrow> dfloat list" where
  "accumulate n base coordinates grey d =
     (let d = foldl (\<lambda>d ii. add_at d (base + ii) (dfl (coordinates ! ii) * grey)) d [0..<n];
          ps = ScanLine_pairs n;
          d = foldl (\<lambda>d (kk, (ii, jj)).
                  add_at d (base + kk) (dfl (coordinates ! ii * coordinates ! jj) * grey))
                d (zip [n..<n + length ps] ps)
      in add_at d (base + (n + length ps)) grey)"

text \<open>
  The \<^verbatim>\<open>do ... while( ++label )\<close> loop of \<^verbatim>\<open>ScanLine\<close> over the pixels of one image line,
  each a label and a grey value.  The loop carries the cached \<^verbatim>\<open>objectID\<close>, the cached
  \<^verbatim>\<open>data\<close> pointer (the start of the object's record, or \<open>None\<close> for \<^verbatim>\<open>nullptr\<close>), the
  coordinates and the contents of \<^verbatim>\<open>data_\<close>.
\<close>

fun ScanLine_loop ::
  "nat \<Rightarrow> nat \<Rightarrow> (nat \<rightharpoonup> nat) \<Rightarrow> nat \<Rightarrow> nat \<Rightarrow> nat option \<Rightarrow> uint list \<Rightarrow> dfloat list
    \<Rightarrow> (nat \<times> dfloat) list \<Rightarrow> dfloat list" where
  "ScanLine_loop n nv objectIndices dimension objectID dat coordinates d [] = d"
| "ScanLine_loop n nv objectIndices dimension objectID dat coordinates d ((label, grey) # line) =
     (let (objectID, dat) =
            (if label > 0 \<and> label \<noteq> objectID
             then (label, map_option (\<lambda>index. index * nv) (objectIndices label))
             else (objectID, dat));
          d = (if label > 0
               then (case dat of None \<Rightarrow> d | Some base \<Rightarrow> accumulate n base coordinates grey d)
               else d);
          coordinates = coordinates[dimension := coordinates ! dimension + 1]
      in ScanLine_loop n nv objectIndices dimension objectID dat coordinates d line)"

definition ScanLine ::
  "FeatureGreyMu \<Rightarrow> (nat \<times> dfloat) list \<Rightarrow> uint list \<Rightarrow> nat \<Rightarrow> (nat \<rightharpoonup> nat) \<Rightarrow> FeatureGreyMu" where
  "ScanLine st line coordinates dimension objectIndices =
     st\<lparr>data := ScanLine_loop (nD st) (nValues st) objectIndices dimension 0 None coordinates
                   (data st) line\<rparr>"

text \<open>
  \<^verbatim>\<open>void Finish( dip::uint objectIndex, Measurement::ValueIterator output )\<close>.  The result
  is the list of the values assigned to \<^verbatim>\<open>output[ 0 ]\<close>, \<^verbatim>\<open>output[ 1 ]\<close>, ... in that
  order, or \<open>None\<close> when a division by zero occurs.
\<close>

definition Finish :: "FeatureGreyMu \<Rightarrow> nat \<Rightarrow> dfloat list option" where
  "Finish st objectIndex =
     (let dat = (\<lambda>i. data st ! (objectIndex * nValues st + i));
          n = dat (nValues st - 1)
      in if n = 0 then Some (map (\<lambda>ii. 0) [0..<length (scales st)])
         else if nD st = 2 then
           do {
             x \<leftarrow> rdiv (dat 0) n;
             y \<leftarrow> rdiv (dat 1) n;
             q4 \<leftarrow> rdiv (dat 4) n;
             q3 \<leftarrow> rdiv (dat 3) n;
             q2 \<leftarrow> rdiv (dat 2) n;
             Some [ (q4 - (y * y)) * scales st ! 0,
                   - (q3 - (x * y)) * scales st ! 1,
                    (q2 - (x * x)) * scales st ! 2]
           }
         else
           do {
             x \<leftarrow> rdiv (dat 0) n;
             y \<leftarrow> rdiv (dat 1) n;
             z \<leftarrow> rdiv (dat 2) n;
             q3 \<leftarrow> rdiv (dat 3) n;
             q6 \<leftarrow> rdiv (dat 6) n;
             q8 \<leftarrow> rdiv (dat 8) n;
             q4 \<leftarrow> rdiv (dat 4) n;
             q5 \<leftarrow> rdiv (dat 5) n;
             q7 \<leftarrow> rdiv (dat 7) n;
             (let xx = q3 - (x * x);
                  yy = q6 - (y * y);
                  zz = q8 - (z * z)
              in Some [ (yy + zz) * scales st ! 0,
                      - (q4 - (x * y)) * scales st ! 1,
                      - (q5 - (x * z)) * scales st ! 2,
                        (xx + zz) * scales st ! 3,
                      - (q7 - (y * z)) * scales st ! 4,
                        (xx + yy) * scales st ! 5])
           })"

text \<open>
  The states of the feature between \<^verbatim>\<open>Initialize\<close> and \<^verbatim>\<open>Finish\<close>: \<^verbatim>\<open>Initialize\<close> for
  \<open>nObjects\<close> objects, then any number of calls of \<^verbatim>\<open>ScanLine\<close> on a line of an image of
  \<^verbatim>\<open>nD_\<close> dimensions, with object indices below \<open>nObjects\<close>.
\<close>

inductive GreyMu_state :: "'u Units \<Rightarrow> 'u Image \<Rightarrow> nat \<Rightarrow> FeatureGreyMu \<Rightarrow> bool"
  for U :: "'u Units" and label :: "'u Image" and nObjects :: nat where
  init: "Initialize U label grey nObjects = Inr (out, st) \<Longrightarrow> GreyMu_state U label nObjects st"
| scan: "GreyMu_state U label nObjects st \<Longrightarrow> length coordinates = nD st
          \<Longrightarrow> dimension < nD st \<Longrightarrow> \<forall>i \<in> ran objectIndices. i < nObjects
          \<Longrightarrow> GreyMu_state U label nObjects (ScanLine st line coordinates dimension objectIndices)"

section \<open>Properties of the rounding\<close>

lemma round_even_int [simp]: "round_even (of_int k) = k"
  by (simp add: round_even_def)

lemma round_even_err: "\<bar>of_int (round_even q) - q\<bar> \<le> 1 / 2"
  unfolding round_even_def Let_def by (auto; linarith)

lemma round_even_half: "\<bar>q\<bar> \<le> 1 / 2 \<Longrightarrow> round_even q = 0"
  unfolding round_even_def Let_def
  apply (cases "0 \<le> q")
  subgoal
    apply (subgoal_tac "\<lfloor>q\<rfloor> = 0")
    apply simp
    apply (simp add: floor_eq_iff)
    done
  subgoal
    apply (subgoal_tac "\<lfloor>q\<rfloor> = - 1")
    apply simp
    apply (simp add: floor_eq_iff)
    done
  done

lemma round_even_0D: "round_even q = 0 \<Longrightarrow> \<bar>q\<bar> \<le> 1 / 2"
  using round_even_err [of q] by simp

lemma round_even_le: "q \<le> of_int k \<Longrightarrow> round_even q \<le> k"
  unfolding round_even_def Let_def
  by (auto simp: floor_le_iff; linarith)

lemma round_even_ge: "of_int k \<le> q \<Longrightarrow> k \<le> round_even q"
  unfolding round_even_def Let_def
  by (auto simp: le_floor_iff; linarith)

lemma two_powi_pos [simp]: "0 < (2::real) powi k"
  by (simp add: zero_less_power_int)

lemma two_powi_less_iff [simp]: "(2::real) powi a < 2 powi b \<longleftrightarrow> a < b"
proof
  assume "(2::real) powi a < 2 powi b"
  show "a < b"
  proof (rule ccontr)
    assume "\<not> a < b"
    then have "b \<le> a" by simp
    then have "(2::real) powi b \<le> 2 powi a" by (intro power_int_increasing) simp_all
    with \<open>(2::real) powi a < 2 powi b\<close> show False by simp
  qed
next
  assume "a < b"
  then show "(2::real) powi a < 2 powi b" by (intro power_int_strict_increasing) simp_all
qed

lemma two_powi_le_iff [simp]: "(2::real) powi a \<le> 2 powi b \<longleftrightarrow> a \<le> b"
  using two_powi_less_iff [of b a] by (simp only: not_less [symmetric])

lemma two_powi_add: "(2::real) powi (a + b) = 2 powi a * 2 powi b"
  by (simp add: power_int_add)

lemma two_powi_diff: "(2::real) powi (a - b) = 2 powi a / 2 powi b"
  by (simp add: power_int_diff)

lemma log2_bounds:
  assumes "0 < x"
  shows "2 powi \<lfloor>log 2 x\<rfloor> \<le> x" "x < 2 powi (\<lfloor>log 2 x\<rfloor> + 1)"
proof -
  have "2 powr real_of_int \<lfloor>log 2 x\<rfloor> \<le> x \<and> x < 2 powr real_of_int (\<lfloor>log 2 x\<rfloor> + 1)"
    using floor_log_eq_powr_iff [of x 2 "\<lfloor>log 2 x\<rfloor>"] assms by simp
  moreover have "(2::real) powr real_of_int k = 2 powi k" for k
    by (rule powr_real_of_int') simp_all
  moreover have "(2::real) powr (real_of_int k + 1) = 2 powi (k + 1)" for k
    using powr_real_of_int' [of "2::real" "k + 1"] by simp
  ultimately show "2 powi \<lfloor>log 2 x\<rfloor> \<le> x" "x < 2 powi (\<lfloor>log 2 x\<rfloor> + 1)"
    by simp_all
qed

lemma DBL_MAX_eq: "DBL_MAX = (2 ^ 53 - 1) * 2 powi 971"
  by (simp add: DBL_MAX_def)

lemma DBL_MAX_less: "DBL_MAX < 2 powi 1024"
  by (simp add: DBL_MAX_def)

text \<open>The exponent of the unit in the last place and the rounded significand.\<close>

lemma binary64_unfold:
  assumes "x \<noteq> 0"
  shows "binary64 x =
    (if DBL_MAX < \<bar>of_int (round_even (x / 2 powi max (\<lfloor>log 2 \<bar>x\<bar>\<rfloor> - 52) (- 1074)))
          * 2 powi max (\<lfloor>log 2 \<bar>x\<bar>\<rfloor> - 52) (- 1074)\<bar>
     then (if 0 < x then PInf else NInf)
     else Finite (of_int (round_even (x / 2 powi max (\<lfloor>log 2 \<bar>x\<bar>\<rfloor> - 52) (- 1074)))
          * 2 powi max (\<lfloor>log 2 \<bar>x\<bar>\<rfloor> - 52) (- 1074)))"
  using assms by (simp add: binary64_def Let_def)

lemma binary64_0 [simp]: "binary64 0 = Finite 0"
  by (simp add: binary64_def)

lemma rounded_error:
  fixes x :: real
  shows "\<bar>of_int (round_even (x / 2 powi e)) * 2 powi e - x\<bar> \<le> 2 powi e / 2"
proof -
  have "of_int (round_even (x / 2 powi e)) * 2 powi e - x
      = (of_int (round_even (x / 2 powi e)) - x / 2 powi e) * 2 powi e"
    by (simp add: field_simps)
  then have "\<bar>of_int (round_even (x / 2 powi e)) * 2 powi e - x\<bar>
      = \<bar>of_int (round_even (x / 2 powi e)) - x / 2 powi e\<bar> * 2 powi e"
    by (simp add: abs_mult)
  also have "\<dots> \<le> (1 / 2) * 2 powi e"
    by (intro mult_right_mono round_even_err) simp
  finally show ?thesis by simp
qed

lemma rounded_bound:
  fixes x :: real
  assumes "\<bar>x\<bar> \<le> of_int K * 2 powi e"
  shows "\<bar>of_int (round_even (x / 2 powi e)) * (2::real) powi e\<bar> \<le> of_int K * 2 powi e"
proof -
  have "x / 2 powi e \<le> of_int K" "of_int (- K) \<le> x / 2 powi e"
    using assms by (simp_all add: field_simps abs_le_iff)
  then have "round_even (x / 2 powi e) \<le> K" "- K \<le> round_even (x / 2 powi e)"
    using round_even_le [of "x / 2 powi e" K] round_even_ge [of "- K" "x / 2 powi e"]
    by blast+
  then have "\<bar>round_even (x / 2 powi e)\<bar> \<le> K" by simp
  then have "\<bar>real_of_int (round_even (x / 2 powi e))\<bar> \<le> of_int K"
    by (metis of_int_abs of_int_le_iff)
  then show ?thesis
    by (simp add: abs_mult)
qed

text \<open>Values up to the largest double are rounded to a finite double.\<close>

lemma binary64_finite:
  assumes "\<bar>x\<bar> \<le> DBL_MAX"
  shows "\<exists>y. binary64 x = Finite y"
proof (cases "x = 0")
  case True
  then show ?thesis by simp
next
  case False
  define e where "e = max (\<lfloor>log 2 \<bar>x\<bar>\<rfloor> - 52) (- 1074)"
  have "2 powi \<lfloor>log 2 \<bar>x\<bar>\<rfloor> \<le> \<bar>x\<bar>"
    using log2_bounds(1) [of "\<bar>x\<bar>"] False by simp
  also have "\<dots> < 2 powi 1024"
    using assms DBL_MAX_less by linarith
  finally have "\<lfloor>log 2 \<bar>x\<bar>\<rfloor> < 1024" by (rule two_powi_less_iff [THEN iffD1])
  then have e: "e \<le> 971" unfolding e_def by linarith
  have s: "(2::real) powi 971 = 2 powi (971 - e) * 2 powi e"
    by (simp only: two_powi_add [symmetric] diff_add_cancel)
  have t: "(2::real) powi (971 - e) = of_int (2 ^ nat (971 - e))"
    using e by (simp add: power_int_def)
  have "DBL_MAX = (2 ^ 53 - 1) * (2 powi (971 - e) * 2 powi e)"
    by (simp only: DBL_MAX_eq s [symmetric])
  also have "\<dots> = of_int ((2 ^ 53 - 1) * 2 ^ nat (971 - e)) * 2 powi e"
    by (simp only: t of_int_mult of_int_diff of_int_power of_int_numeral of_int_1 mult.assoc)
  finally have D: "DBL_MAX = of_int ((2 ^ 53 - 1) * 2 ^ nat (971 - e)) * 2 powi e" .
  with assms have "\<bar>x\<bar> \<le> of_int ((2 ^ 53 - 1) * 2 ^ nat (971 - e)) * 2 powi e"
    by simp
  from rounded_bound [OF this]
  have "\<bar>of_int (round_even (x / 2 powi e)) * 2 powi e\<bar> \<le> DBL_MAX"
    using D by simp
  then show ?thesis
    using False by (simp add: binary64_unfold e_def [symmetric])
qed

lemma binary64_Finite_le: "binary64 x = Finite y \<Longrightarrow> \<bar>y\<bar> \<le> DBL_MAX"
  by (cases "x = 0") (auto simp: binary64_unfold DBL_MAX_def split: if_splits)

text \<open>The error of rounding: half a unit in the last place.\<close>

lemma binary64_abs_error:
  assumes "binary64 x = Finite y"
  shows "\<bar>y - x\<bar> \<le> 2 powi max (\<lfloor>log 2 \<bar>x\<bar>\<rfloor> - 52) (- 1074) / 2"
proof (cases "x = 0")
  case True
  then show ?thesis using assms by simp
next
  case False
  then have "y = of_int (round_even (x / 2 powi max (\<lfloor>log 2 \<bar>x\<bar>\<rfloor> - 52) (- 1074)))
          * 2 powi max (\<lfloor>log 2 \<bar>x\<bar>\<rfloor> - 52) (- 1074)"
    using assms by (simp add: binary64_unfold split: if_splits)
  then show ?thesis
    using rounded_error [of x "max (\<lfloor>log 2 \<bar>x\<bar>\<rfloor> - 52) (- 1074)"] by simp
qed

lemma binary64_rel_error:
  assumes "binary64 x = Finite y" "2 powi (- 1022) \<le> \<bar>x\<bar>"
  shows "\<bar>y - x\<bar> \<le> \<bar>x\<bar> / 2 ^ 53"
proof -
  have "x \<noteq> 0" using assms(2) two_powi_pos [of "- 1022"] by auto
  have "(2::real) powi (- 1022) < 2 powi (\<lfloor>log 2 \<bar>x\<bar>\<rfloor> + 1)"
    using assms(2) log2_bounds(2) [of "\<bar>x\<bar>"] \<open>x \<noteq> 0\<close> by simp
  then have "- 1022 < \<lfloor>log 2 \<bar>x\<bar>\<rfloor> + 1" by (rule two_powi_less_iff [THEN iffD1])
  then have E: "- 1022 \<le> \<lfloor>log 2 \<bar>x\<bar>\<rfloor>" by linarith
  then have "max (\<lfloor>log 2 \<bar>x\<bar>\<rfloor> - 52) (- 1074) = \<lfloor>log 2 \<bar>x\<bar>\<rfloor> - 52"
    by (intro max_absorb1) linarith
  with binary64_abs_error [OF assms(1)]
  have "\<bar>y - x\<bar> \<le> 2 powi (\<lfloor>log 2 \<bar>x\<bar>\<rfloor> - 52) / 2" by simp
  also have "\<dots> = 2 powi \<lfloor>log 2 \<bar>x\<bar>\<rfloor> / 2 ^ 53"
    by (simp add: two_powi_diff)
  also have "\<dots> \<le> \<bar>x\<bar> / 2 ^ 53"
    using log2_bounds(1) [of "\<bar>x\<bar>"] \<open>x \<noteq> 0\<close> by (simp add: divide_right_mono)
  finally show ?thesis .
qed

lemma binary64_exact:
  assumes "x = of_int M * 2 powi k" "\<bar>M\<bar> < 2 ^ 53" "- 1074 \<le> k" "\<bar>x\<bar> \<le> DBL_MAX"
  shows "binary64 x = Finite x"
proof (cases "x = 0")
  case True
  then show ?thesis by simp
next
  case False
  define E where "E = \<lfloor>log 2 \<bar>x\<bar>\<rfloor>"
  define e where "e = max (E - 52) (- 1074)"
  have "2 powi E \<le> \<bar>x\<bar>"
    unfolding E_def using log2_bounds(1) [of "\<bar>x\<bar>"] False by simp
  also have "\<bar>x\<bar> = \<bar>of_int M\<bar> * 2 powi k"
    by (simp add: assms(1) abs_mult)
  also have "\<dots> < 2 ^ 53 * 2 powi k"
  proof -
    have "\<bar>real_of_int M\<bar> < 2 ^ 53"
      using assms(2) by (metis of_int_abs of_int_less_iff of_int_numeral of_int_power)
    then show ?thesis by (intro mult_strict_right_mono) simp_all
  qed
  also have "\<dots> = 2 powi (53 + k)"
    by (simp only: two_powi_add power_int_numeral)
  finally have "E < 53 + k" by (rule two_powi_less_iff [THEN iffD1])
  then have ek: "e \<le> k" unfolding e_def using assms(3) by linarith
  have "(2::real) powi k = 2 powi (k - e) * 2 powi e"
    by (simp only: two_powi_add [symmetric] diff_add_cancel)
  also have "(2::real) powi (k - e) = of_int (2 ^ nat (k - e))"
    using ek by (simp add: power_int_def)
  finally have x: "x = of_int (M * 2 ^ nat (k - e)) * 2 powi e"
    by (simp add: assms(1))
  have "x / 2 powi e = of_int (M * 2 ^ nat (k - e))"
    by (subst x) simp
  then have "of_int (round_even (x / 2 powi e)) * 2 powi e = x"
    using x by (simp only: round_even_int)
  then show ?thesis
    using False assms(4) by (simp add: binary64_unfold E_def [symmetric] e_def [symmetric])
qed

lemma binary64_of_int: "\<bar>k\<bar> < 2 ^ 53 \<Longrightarrow> binary64 (of_int k) = Finite (of_int k)"
proof -
  assume k: "\<bar>k\<bar> < 2 ^ 53"
  then have "\<bar>real_of_int k\<bar> < 2 ^ 53"
    by (metis of_int_abs of_int_less_iff of_int_numeral of_int_power)
  then have "\<bar>real_of_int k\<bar> \<le> DBL_MAX"
    by (simp add: DBL_MAX_def)
  then show ?thesis
    using k by (intro binary64_exact [of _ k 0]) simp_all
qed

lemma binary64_of_nat: "n < 2 ^ 53 \<Longrightarrow> binary64 (real n) = Finite (real n)"
  using binary64_of_int [of "int n"] by simp

lemma binary64_two_powi:
  assumes "- 1074 \<le> k" "k \<le> 1023"
  shows "binary64 (2 powi k) = Finite (2 powi k)"
proof -
  have "(2::real) powi k \<le> 2 powi 1023"
    using assms(2) by (simp only: two_powi_le_iff)
  also have "\<dots> \<le> DBL_MAX"
    by (simp add: DBL_MAX_def)
  finally show ?thesis
    using assms(1) by (intro binary64_exact [of _ 1 k]) simp_all
qed

lemma binary64_underflow:
  assumes "\<bar>x\<bar> \<le> 2 powi (- 1075)"
  shows "binary64 x = Finite 0"
proof (cases "x = 0")
  case True
  then show ?thesis by simp
next
  case False
  define E where "E = \<lfloor>log 2 \<bar>x\<bar>\<rfloor>"
  have "2 powi E \<le> \<bar>x\<bar>"
    unfolding E_def using log2_bounds(1) [of "\<bar>x\<bar>"] False by simp
  with assms have "(2::real) powi E \<le> 2 powi (- 1075)" by linarith
  then have "E \<le> - 1075" by (rule two_powi_le_iff [THEN iffD1])
  then have e: "max (E - 52) (- 1074) = - 1074" by (intro max_absorb2) linarith
  have "(2::real) powi (- 1075) = 2 powi (- 1074) / 2"
    using two_powi_diff [of "- 1074" 1] by simp
  then have "\<bar>x / 2 powi (- 1074)\<bar> \<le> 1 / 2"
    using assms by (simp add: field_simps)
  then have "round_even (x / 2 powi (- 1074)) = 0"
    by (rule round_even_half)
  then show ?thesis
    using False by (simp add: binary64_unfold E_def [symmetric] e DBL_MAX_def)
qed

lemma binary64_eq_0D:
  assumes "binary64 x = Finite 0"
  shows "\<bar>x\<bar> \<le> 2 powi (- 1075)"
proof (cases "x = 0")
  case True
  then show ?thesis by simp
next
  case False
  define E where "E = \<lfloor>log 2 \<bar>x\<bar>\<rfloor>"
  define e where "e = max (E - 52) (- 1074)"
  have "of_int (round_even (x / 2 powi e)) * (2::real) powi e = 0"
    using assms False
    by (simp add: binary64_unfold E_def [symmetric] e_def [symmetric] split: if_splits)
  then have "round_even (x / 2 powi e) = 0"
    by simp
  then have "\<bar>x / 2 powi e\<bar> \<le> 1 / 2"
    by (rule round_even_0D)
  then have le: "\<bar>x\<bar> \<le> 2 powi e / 2"
    by (simp add: field_simps)
  have E: "2 powi E \<le> \<bar>x\<bar>"
    unfolding E_def using log2_bounds(1) [of "\<bar>x\<bar>"] False by simp
  have "e = - 1074"
  proof (rule ccontr)
    assume "e \<noteq> - 1074"
    then have "e = E - 52" unfolding e_def by linarith
    then have "e < E" by linarith
    then have "(2::real) powi e < 2 powi E" by (simp only: two_powi_less_iff)
    with le E show False
      using two_powi_pos [of e] by linarith
  qed
  moreover have "(2::real) powi (- 1075) = 2 powi (- 1074) / 2"
    using two_powi_diff [of "- 1074" 1] by simp
  ultimately show ?thesis
    using le by simp
qed

lemma binary64_overflow:
  assumes "2 powi 1024 \<le> \<bar>x\<bar>"
  shows "binary64 x = (if 0 < x then PInf else NInf)"
proof -
  have nz: "x \<noteq> 0" using assms two_powi_pos [of 1024] by auto
  define E where "E = \<lfloor>log 2 \<bar>x\<bar>\<rfloor>"
  define e where "e = max (E - 52) (- 1074)"
  have "(2::real) powi 1024 < 2 powi (E + 1)"
    unfolding E_def using log2_bounds(2) [of "\<bar>x\<bar>"] nz assms by simp
  then have "1024 < E + 1" by (rule two_powi_less_iff [THEN iffD1])
  then have E: "1024 \<le> E" and e: "e = E - 52" unfolding e_def by linarith+
  have lo: "2 powi E \<le> \<bar>x\<bar>"
    unfolding E_def using log2_bounds(1) [of "\<bar>x\<bar>"] nz by simp
  have p: "(2::real) powi E = of_int (2 ^ 52) * 2 powi e"
    unfolding e by (simp only: two_powi_diff of_int_power of_int_numeral power_int_numeral) simp
  have "of_int (2 ^ 52) * 2 powi e \<le> \<bar>of_int (round_even (x / 2 powi e)) * (2::real) powi e\<bar>"
  proof (cases "0 < x")
    case True
    then have "of_int (2 ^ 52) \<le> x / 2 powi e"
      using lo p by (simp add: field_simps)
    then have "2 ^ 52 \<le> round_even (x / 2 powi e)"
      by (rule round_even_ge)
    then have "of_int (2 ^ 52) \<le> real_of_int (round_even (x / 2 powi e))"
      by (simp only: of_int_le_iff)
    then have "of_int (2 ^ 52) * 2 powi e \<le> of_int (round_even (x / 2 powi e)) * (2::real) powi e"
      by (intro mult_right_mono) simp_all
    then show ?thesis by linarith
  next
    case False
    then have "x / 2 powi e \<le> of_int (- (2 ^ 52))"
      using lo p nz by (simp add: field_simps)
    then have "round_even (x / 2 powi e) \<le> - (2 ^ 52)"
      by (rule round_even_le)
    then have "real_of_int (round_even (x / 2 powi e)) \<le> of_int (- (2 ^ 52))"
      by (simp only: of_int_le_iff)
    then have "of_int (round_even (x / 2 powi e)) * (2::real) powi e \<le> of_int (- (2 ^ 52)) * 2 powi e"
      by (intro mult_right_mono) simp_all
    then have "of_int (round_even (x / 2 powi e)) * (2::real) powi e \<le> - (of_int (2 ^ 52) * 2 powi e)"
      by (simp only: of_int_minus mult_minus_left)
    moreover have "0 < of_int (2 ^ 52) * (2::real) powi e"
      by (intro mult_pos_pos) simp_all
    ultimately show ?thesis by linarith
  qed
  then have "2 powi E \<le> \<bar>of_int (round_even (x / 2 powi e)) * (2::real) powi e\<bar>"
    by (simp only: p)
  moreover have "(2::real) powi 1024 \<le> 2 powi E"
    using E by (simp only: two_powi_le_iff)
  ultimately have "DBL_MAX < \<bar>of_int (round_even (x / 2 powi e)) * (2::real) powi e\<bar>"
    using DBL_MAX_less by linarith
  then show ?thesis
    using nz by (simp add: binary64_unfold E_def [symmetric] e_def [symmetric])
qed

lemma binary64_sign:
  assumes "binary64 x = Finite y"
  shows "0 \<le> x \<Longrightarrow> 0 \<le> y" "x \<le> 0 \<Longrightarrow> y \<le> 0"
proof -
  define e where "e = max (\<lfloor>log 2 \<bar>x\<bar>\<rfloor> - 52) (- 1074)"
  have y: "x \<noteq> 0 \<Longrightarrow> y = of_int (round_even (x / 2 powi e)) * 2 powi e"
    using assms by (simp add: binary64_unfold e_def [symmetric] split: if_splits)
  show "0 \<le> y" if "0 \<le> x"
  proof (cases "x = 0")
    case True
    then show ?thesis using assms by simp
  next
    case False
    have "of_int 0 \<le> x / 2 powi e" using that by simp
    then have "0 \<le> round_even (x / 2 powi e)" by (rule round_even_ge)
    then show ?thesis using y [OF False] by simp
  qed
  show "y \<le> 0" if "x \<le> 0"
  proof (cases "x = 0")
    case True
    then show ?thesis using assms by simp
  next
    case False
    have "x / 2 powi e \<le> of_int 0" using that by (simp add: divide_le_0_iff)
    then have "round_even (x / 2 powi e) \<le> 0" by (rule round_even_le)
    then show ?thesis using y [OF False] by (simp add: mult_le_0_iff)
  qed
qed

lemma binary64_not_NaN [simp]: "binary64 x \<noteq> NaN"
  by (simp add: binary64_def Let_def)

lemma binary64_PInf_D: "binary64 x = PInf \<Longrightarrow> 0 < x"
  by (cases "x = 0") (simp_all add: binary64_unfold split: if_splits)

lemma binary64_NInf_D: "binary64 x = NInf \<Longrightarrow> x < 0"
  by (cases "x = 0") (simp_all add: binary64_unfold split: if_splits)

lemma binary64_numeral:
  "(numeral w :: int) < 2 ^ 53 \<Longrightarrow> binary64 (numeral w) = Finite (numeral w)"
  using binary64_of_int [of "numeral w"] by simp

lemma binary64_1 [simp]: "binary64 1 = Finite 1"
  using binary64_of_int [of 1] by simp

lemma is_double_simps [simp]: "is_double PInf" "is_double NInf" "is_double NaN"
  "is_double (Finite 0)" "is_double (Finite 1)"
  by (simp_all add: is_double_def)

lemma is_double_numeral: "(numeral w :: int) < 2 ^ 53 \<Longrightarrow> is_double (Finite (numeral w))"
  by (simp add: is_double_def binary64_numeral)

text \<open>Rounding does not cross a double.\<close>

lemma binary64_le_double:
  assumes "binary64 B = Finite B" "\<bar>x\<bar> \<le> B"
  shows "\<exists>z. binary64 x = Finite z \<and> \<bar>z\<bar> \<le> B"
proof (cases "x = 0")
  case True
  then show ?thesis using assms(2) by simp
next
  case False
  then have Bpos: "0 < B" using assms(2) by linarith
  define ex where "ex = max (\<lfloor>log 2 \<bar>x\<bar>\<rfloor> - 52) (- 1074)"
  define eb where "eb = max (\<lfloor>log 2 B\<rfloor> - 52) (- 1074)"
  have "log 2 \<bar>x\<bar> \<le> log 2 B"
    using False assms(2) Bpos by simp
  then have "\<lfloor>log 2 \<bar>x\<bar>\<rfloor> \<le> \<lfloor>log 2 B\<rfloor>"
    by (rule floor_mono)
  then have le: "ex \<le> eb"
    unfolding ex_def eb_def by linarith
  define m where "m = round_even (B / 2 powi eb)"
  have B: "B = of_int m * 2 powi eb"
    using assms(1) Bpos by (simp add: binary64_unfold eb_def [symmetric] m_def split: if_splits)
  have "(2::real) powi eb = 2 powi (eb - ex) * 2 powi ex"
    by (simp only: two_powi_add [symmetric] diff_add_cancel)
  also have "(2::real) powi (eb - ex) = of_int (2 ^ nat (eb - ex))"
    using le by (simp add: power_int_def)
  finally have B': "B = of_int (m * 2 ^ nat (eb - ex)) * 2 powi ex"
    by (simp add: B)
  with assms(2) have "\<bar>x\<bar> \<le> of_int (m * 2 ^ nat (eb - ex)) * 2 powi ex"
    by simp
  from rounded_bound [OF this]
  have z: "\<bar>of_int (round_even (x / 2 powi ex)) * 2 powi ex\<bar> \<le> B"
    using B' by simp
  moreover have "B \<le> DBL_MAX"
    using binary64_Finite_le [OF assms(1)] by simp
  ultimately show ?thesis
    using False by (simp add: binary64_unfold ex_def [symmetric])
qed

section \<open>Properties of the integer division variants\<close>

subsection \<open>Truncating division against flooring division on the integers\<close>

lemma sdiv_cases:
  "0 \<le> x \<Longrightarrow> 0 < y \<Longrightarrow> x sdiv y = x div (y::int)"
  "x \<le> 0 \<Longrightarrow> 0 < y \<Longrightarrow> x sdiv y = - ((- x) div y)"
  "0 \<le> x \<Longrightarrow> y < 0 \<Longrightarrow> x sdiv y = - (x div (- y))"
  "x \<le> 0 \<Longrightarrow> y < 0 \<Longrightarrow> x sdiv y = (- x) div (- y)"
  by (auto simp: signed_divide_int_def sgn_if abs_if)

lemma neg_succ_div:
  assumes "0 \<le> n" "0 < (y::int)"
  shows "(- n - 1) div y = - (n div y) - 1"
proof (rule int_div_pos_eq [where r = "y - 1 - n mod y"])
  have "n = y * (n div y) + n mod y" by simp
  then show "- n - 1 = y * (- (n div y) - 1) + (y - 1 - n mod y)"
    by (simp add: algebra_simps)
  show "0 \<le> y - 1 - n mod y" using assms pos_mod_bound [of y n] by linarith
  show "y - 1 - n mod y < y" using assms pos_mod_sign [of y n] by linarith
qed

lemma floor_neg_pos: "x < 0 \<Longrightarrow> y > 0 \<Longrightarrow> (x + 1) sdiv y - 1 = x div (y::int)"
  using neg_succ_div [of "- x - 1" y] by (simp add: sdiv_cases(2))

lemma floor_pos_neg: "x > 0 \<Longrightarrow> y < 0 \<Longrightarrow> (x - 1) sdiv y - 1 = x div (y::int)"
  using neg_succ_div [of "x - 1" "- y"] div_minus_minus [of "- x" "- y"]
  by (simp add: sdiv_cases(3))

lemma floor_same_sign: "x * y > 0 \<Longrightarrow> x sdiv y = x div (y::int)"
  using div_minus_minus [of "- x" "- y"]
  by (auto simp: zero_less_mult_iff sdiv_cases(1) sdiv_cases(4))

lemma ceil_opposite_sign: "x * y < 0 \<Longrightarrow> x sdiv y = - ((- x) div (y::int))"
  using div_minus_minus [of "x" "- y"]
  by (auto simp: mult_less_0_iff sdiv_cases(2) sdiv_cases(3))

lemma ceil_neg_neg: "x < 0 \<Longrightarrow> y < 0 \<Longrightarrow> (x + 1) sdiv y + 1 = - ((- x) div (y::int))"
  using neg_succ_div [of "- x - 1" "- y"] div_minus_minus [of "x" "- y"]
  by (simp add: sdiv_cases(4))

lemma ceil_pos_pos: "x > 0 \<Longrightarrow> y > 0 \<Longrightarrow> (x - 1) sdiv y + 1 = - ((- x) div (y::int))"
  using neg_succ_div [of "x - 1" "y"]
  by (simp add: sdiv_cases(1))

lemma abs_div_le_abs:
  assumes "y \<noteq> 0"
  shows "\<bar>x div y\<bar> \<le> \<bar>x::int\<bar>"
proof -
  have pos: "\<bar>u div v\<bar> \<le> \<bar>u\<bar>" if "0 < v" for u v :: int
  proof (cases "0 \<le> u")
    case True
    then have "0 \<le> u div v" "u div v \<le> u div 1"
      using that zdiv_mono2 [of u 1 v] by (simp_all add: pos_imp_zdiv_nonneg_iff)
    then show ?thesis using True by simp
  next
    case False
    then have "u div v \<le> 0" "u div 1 \<le> u div v"
      using that zdiv_mono2_neg [of u 1 v] div_nonpos_pos_le0 [of u v] by simp_all
    then show ?thesis using False by simp
  qed
  show ?thesis
  proof (cases "0 < y")
    case True
    then show ?thesis by (rule pos)
  next
    case False
    then have "0 < - y" using assms by simp
    from pos [OF this, of "- x"] show ?thesis by simp
  qed
qed

subsection \<open>The machine operations where nothing wraps\<close>

lemma sint_word_of_int_range:
  "sint_range k \<Longrightarrow> sint (word_of_int k :: sint) = k"
  by (simp add: sint_range_def sint_sbintrunc' signed_take_bit_int_eq_self)

lemma sint_bounds: "sint_range (sint (a :: sint))"
  using sint_ge [of a] sint_lt [of a] by (simp add: sint_range_def)

lemma sint_eq_0_iff: "sint (a :: sint) = 0 \<longleftrightarrow> a = 0"
  by (metis sint_0 signed_word_eqI)

lemma product_range_factor:
  assumes "sint_range (x * y)" "x \<noteq> 0" "y \<noteq> 0"
  shows "\<bar>x\<bar> \<le> \<bar>x * y\<bar>"
proof -
  have "1 \<le> \<bar>y\<bar>" using assms(3) by simp
  then have "\<bar>x\<bar> * 1 \<le> \<bar>x\<bar> * \<bar>y\<bar>" by (intro mult_left_mono) simp_all
  then show ?thesis by (simp add: abs_mult)
qed

lemma quotient_range:
  assumes "sint_range (x * y)" "x \<noteq> 0" "y \<noteq> 0"
  shows "sint_range (x div y)" and "sint_range (- ((- x) div y))"
proof -
  have f: "\<bar>x div y\<bar> \<le> \<bar>x\<bar>" and c: "\<bar>(- x) div y\<bar> \<le> \<bar>x\<bar>"
    using abs_div_le_abs [OF assms(3), of x] abs_div_le_abs [OF assms(3), of "- x"] by simp_all
  have x: "\<bar>x\<bar> \<le> \<bar>x * y\<bar>"
    by (rule product_range_factor [OF assms])
  have sg: "0 < x * y \<Longrightarrow> 0 \<le> x div y \<and> 0 \<le> - ((- x) div y)"
    using div_nonpos_pos_le0 [of "- x" y] div_nonneg_neg_le0 [of "- x" y]
    by (auto simp: zero_less_mult_iff pos_imp_zdiv_nonneg_iff neg_imp_zdiv_nonneg_iff)
  have sl: "x * y < 0 \<Longrightarrow> x div y \<le> 0 \<and> - ((- x) div y) \<le> 0"
    by (auto simp: mult_less_0_iff pos_imp_zdiv_nonneg_iff neg_imp_zdiv_nonneg_iff
        div_nonneg_neg_le0 div_nonpos_pos_le0)
  have nz: "x * y \<noteq> 0" using assms by simp
  show "sint_range (x div y)"
    using f x sg sl nz assms(1) unfolding sint_range_def by (cases "0 < x * y") linarith+
  show "sint_range (- ((- x) div y))"
    using c x sg sl nz assms(1) unfolding sint_range_def by (cases "0 < x * y") linarith+
qed

lemma mult_no_wrap:
  "sint_range (sint (a::sint) * sint b) \<Longrightarrow> sint (a * b) = sint a * sint (b::sint)"
  by (simp add: sint_word_mult sint_range_def signed_take_bit_int_eq_self)

lemma succ_no_wrap: "sint a < 0 \<Longrightarrow> sint (a + 1) = sint (a::sint) + 1"
  using sint_ge [of a] by (simp add: sint_word_add signed_take_bit_int_eq_self)

lemma pred_no_wrap: "0 < sint a \<Longrightarrow> sint (a - 1) = sint (a::sint) - 1"
  using sint_lt [of a] by (simp add: sint_word_ariths signed_take_bit_int_eq_self)

lemma sint_div_Some:
  "b \<noteq> 0 \<Longrightarrow> \<not> (sint (a::sint) = - (2 ^ 63) \<and> sint b = - 1)
   \<Longrightarrow> sint_div a b = Some (word_of_int (sint a sdiv sint b))"
  by (simp add: sint_div_def)

lemma product_sign:
  fixes a b :: sint
  assumes "a \<noteq> 0" "b \<noteq> 0" "sint_range (sint a * sint b)"
  shows "a * b \<noteq> 0" and "a * b <s 0 \<longleftrightarrow> sint a * sint b < 0"
proof -
  have p: "sint (a * b) = sint a * sint b"
    by (rule mult_no_wrap [OF assms(3)])
  have "sint a * sint b \<noteq> 0"
    using assms(1,2) by (simp add: sint_eq_0_iff)
  with p show "a * b \<noteq> 0" by (metis sint_0)
  show "a * b <s 0 \<longleftrightarrow> sint a * sint b < 0"
    by (simp add: word_sless_alt p)
qed

lemma no_trap:
  fixes a b :: sint
  assumes "sint_range (sint a * sint b)"
  shows "\<not> (sint a = - (2 ^ 63) \<and> sint (b::sint) = - 1)"
  using assms by (auto simp: sint_range_def)

lemma div_floor_exact:
  fixes a b :: sint
  assumes "a \<noteq> 0" "b \<noteq> 0" "sint_range (sint a * sint b)"
  shows "div_floor a b = Some (word_of_int (sint a div sint b))"
proof -
  let ?x = "sint a" and ?y = "sint b"
  note ps = product_sign [OF assms]
  have nz: "?x \<noteq> 0" "?y \<noteq> 0" using assms(1,2) by (simp_all add: sint_eq_0_iff)
  consider (nn) "?x * ?y < 0" "?x < 0" | (np) "?x * ?y < 0" "0 < ?x" | (pp) "0 < ?x * ?y"
    using nz by (metis linorder_neqE_linordered_idom mult_eq_0_iff)
  then show ?thesis
  proof cases
    case nn
    then have y: "0 < ?y" by (simp add: mult_less_0_iff)
    have "sint_div (a + 1) b = Some (word_of_int ((?x + 1) sdiv ?y))"
      using y assms(2) nn(2) by (simp add: sint_div_def succ_no_wrap)
    then show ?thesis
      using nn ps floor_neg_pos [OF nn(2) y, symmetric]
      by (simp add: div_floor_def word_sless_alt)
  next
    case np
    then have y: "?y < 0" by (simp add: mult_less_0_iff)
    have "sint_div (a - 1) b = Some (word_of_int ((?x - 1) sdiv ?y))"
      using y assms(2) np(2) sint_lt [of a] by (simp add: sint_div_def pred_no_wrap)
    then show ?thesis
      using np ps floor_pos_neg [OF np(2) y, symmetric]
      by (simp add: div_floor_def word_sless_alt)
  next
    case pp
    have "sint_div a b = Some (word_of_int (?x sdiv ?y))"
      using assms(2) no_trap [OF assms(3)] by (simp add: sint_div_def)
    then show ?thesis
      using pp ps floor_same_sign [OF pp]
      by (simp add: div_floor_def)
  qed
qed

lemma div_ceil_exact:
  fixes a b :: sint
  assumes "a \<noteq> 0" "b \<noteq> 0" "sint_range (sint a * sint b)"
  shows "div_ceil a b = Some (word_of_int (- ((- sint a) div sint b)))"
proof -
  let ?x = "sint a" and ?y = "sint b"
  note ps = product_sign [OF assms]
  have nz: "?x \<noteq> 0" "?y \<noteq> 0" using assms(1,2) by (simp_all add: sint_eq_0_iff)
  consider (ng) "?x * ?y < 0" | (nn) "0 < ?x * ?y" "?x < 0" | (pp) "0 < ?x * ?y" "0 < ?x"
    using nz by (metis linorder_neqE_linordered_idom mult_eq_0_iff)
  then show ?thesis
  proof cases
    case ng
    have "sint_div a b = Some (word_of_int (?x sdiv ?y))"
      using assms(2) no_trap [OF assms(3)] by (simp add: sint_div_def)
    then show ?thesis
      using ng ps ceil_opposite_sign [OF ng]
      by (simp add: div_ceil_def)
  next
    case nn
    then have y: "?y < 0" by (simp add: zero_less_mult_iff)
    have "?x + 1 \<noteq> - (2 ^ 63)" using sint_ge [of a] by simp
    then have "sint_div (a + 1) b = Some (word_of_int ((?x + 1) sdiv ?y))"
      using y assms(2) nn(2) by (simp add: sint_div_def succ_no_wrap)
    then show ?thesis
      using nn ps ceil_neg_neg [OF nn(2) y, symmetric]
      by (simp add: div_ceil_def word_sless_alt)
  next
    case pp
    then have y: "0 < ?y" by (simp add: zero_less_mult_iff)
    have "sint_div (a - 1) b = Some (word_of_int ((?x - 1) sdiv ?y))"
      using y assms(2) pp(2) by (simp add: sint_div_def pred_no_wrap)
    then show ?thesis
      using pp ps ceil_pos_pos [OF pp(2) y, symmetric]
      by (simp add: div_ceil_def word_sless_alt)
  qed
qed

lemma div_round_unfold:
  "div_round a b = div_floor (a + word_of_int (sint b sdiv 2)) b"
  by (simp add: div_round_def sint_div_def)

lemma half_quotient_zero:
  fixes y :: int
  shows "(y sdiv 2) div y = 0"
proof (cases "0 \<le> y")
  case True
  then show ?thesis
    by (cases "y = 0") (simp_all add: sdiv_cases(1) div_pos_pos_trivial)
next
  case False
  then have "y < - ((- y) div 2)" "- ((- y) div 2) \<le> 0" by presburger+
  then have "(- ((- y) div 2)) div y = 0"
    by (simp add: div_neg_neg_trivial)
  then show ?thesis
    using False by (simp add: sdiv_cases(2))
qed

lemma div_round_zero_lhs:
  fixes b :: sint
  assumes "sint_range ((sint b sdiv 2) * sint b)"
  shows "div_round 0 b = Some 0"
proof -
  let ?h = "word_of_int (sint b sdiv 2) :: sint"
  have hr: "sint_range (sint b sdiv 2)"
    using sint_ge [of b] sint_lt [of b]
    by (cases "0 \<le> sint b") (simp_all add: sint_range_def sdiv_cases(1) sdiv_cases(2), linarith+)
  have h: "sint ?h = sint b sdiv 2"
    by (rule sint_word_of_int_range [OF hr])
  show ?thesis
  proof (cases "?h = 0 \<or> b = 0")
    case True
    then have "?h * b = 0" by auto
    then show ?thesis by (simp add: div_round_unfold div_floor_def)
  next
    case False
    then have "div_floor ?h b = Some (word_of_int (sint ?h div sint b))"
      using assms h by (intro div_floor_exact) simp_all
    then show ?thesis
      by (simp add: div_round_unfold h half_quotient_zero)
  qed
qed

text \<open>
  Claim C4, restricted to operands whose product \<open>a * b\<close> is representable in
  \<^verbatim>\<open>dip::sint\<close>.  For non-zero \<open>a\<close> and \<open>b\<close>, \<^verbatim>\<open>div_floor\<close> returns the floor and
  \<^verbatim>\<open>div_ceil\<close> the ceiling of the exact quotient, which therefore lies between them;
  \<^verbatim>\<open>div_round(a, b)\<close> is \<^verbatim>\<open>div_floor(a + b / 2, b)\<close> with the truncating \<^verbatim>\<open>b / 2\<close>.
  When an operand is zero, \<^verbatim>\<open>div_floor\<close> and \<^verbatim>\<open>div_ceil\<close> return 0 from the
  short-circuit, and so does \<^verbatim>\<open>div_round\<close> for a zero divisor, and for a zero dividend
  when \<open>(b / 2) * b\<close> is representable; no call divides by zero (no result is \<open>None\<close>).
  The checks of the test table quoted by the claim hold.
\<close>

theorem div_floor_ceil_round:
  fixes a b :: sint
  shows
   "(a \<noteq> 0 \<and> b \<noteq> 0 \<and> sint_range (sint a * sint b) \<longrightarrow>
       (\<exists>f c. div_floor a b = Some f \<and> div_ceil a b = Some c
          \<and> sint f = \<lfloor>real_of_int (sint a) / real_of_int (sint b)\<rfloor>
          \<and> sint c = \<lceil>real_of_int (sint a) / real_of_int (sint b)\<rceil>
          \<and> real_of_int (sint f) \<le> real_of_int (sint a) / real_of_int (sint b)
          \<and> real_of_int (sint a) / real_of_int (sint b) \<le> real_of_int (sint c)))
    \<and> div_round a b = div_floor (a + word_of_int (sint b sdiv 2)) b
    \<and> (a = 0 \<or> b = 0 \<longrightarrow> div_floor a b = Some 0 \<and> div_ceil a b = Some 0)
    \<and> (b = 0 \<or> (a = 0 \<and> sint_range ((sint b sdiv 2) * sint b))
          \<longrightarrow> div_round a b = Some 0)
    \<and> div_ceil 11 3 = Some 4 \<and> div_floor 11 3 = Some 3 \<and> div_round 11 3 = Some 4
    \<and> div_ceil (- 11) 3 = Some (- 3) \<and> div_floor (- 11) 3 = Some (- 4)
    \<and> div_ceil 11 (- 3) = Some (- 3) \<and> div_floor 11 (- 3) = Some (- 4)
    \<and> div_ceil (- 11) (- 3) = Some 4 \<and> div_floor (- 11) (- 3) = Some 3"
proof -
  have 1: "\<exists>f c. div_floor a b = Some f \<and> div_ceil a b = Some c
          \<and> sint f = \<lfloor>real_of_int (sint a) / real_of_int (sint b)\<rfloor>
          \<and> sint c = \<lceil>real_of_int (sint a) / real_of_int (sint b)\<rceil>
          \<and> real_of_int (sint f) \<le> real_of_int (sint a) / real_of_int (sint b)
          \<and> real_of_int (sint a) / real_of_int (sint b) \<le> real_of_int (sint c)"
    if h: "a \<noteq> 0" "b \<noteq> 0" "sint_range (sint a * sint b)"
  proof -
    have nz: "sint a \<noteq> 0" "sint b \<noteq> 0"
      using h(1,2) by (simp_all add: sint_eq_0_iff)
    note r = quotient_range [OF h(3) nz]
    have f: "sint (word_of_int (sint a div sint b) :: sint)
        = \<lfloor>real_of_int (sint a) / real_of_int (sint b)\<rfloor>"
      by (simp only: sint_word_of_int_range [OF r(1)] floor_divide_of_int_eq)
    have c: "sint (word_of_int (- ((- sint a) div sint b)) :: sint)
        = \<lceil>real_of_int (sint a) / real_of_int (sint b)\<rceil>"
      by (simp only: sint_word_of_int_range [OF r(2)] ceiling_divide_eq_div)
    show ?thesis
      using div_floor_exact [OF h] div_ceil_exact [OF h] f c
      by (metis of_int_floor_le le_of_int_ceiling)
  qed
  have 2: "div_round a b = div_floor (a + word_of_int (sint b sdiv 2)) b"
    by (rule div_round_unfold)
  have 3: "div_floor a b = Some 0 \<and> div_ceil a b = Some 0" if "a = 0 \<or> b = 0"
    using that by (auto simp: div_floor_def div_ceil_def)
  have 4: "div_round a b = Some 0"
    if "b = 0 \<or> (a = 0 \<and> sint_range ((sint b sdiv 2) * sint b))"
    using that div_round_zero_lhs [of b] by (auto simp: div_round_unfold div_floor_def)
  have 5: "div_ceil 11 3 = Some 4" "div_floor 11 3 = Some 3" "div_round 11 3 = Some 4"
    "div_ceil (- 11) 3 = Some (- 3)" "div_floor (- 11) 3 = Some (- 4)"
    "div_ceil 11 (- 3) = Some (- 3)" "div_floor 11 (- 3) = Some (- 4)"
    "div_ceil (- 11) (- 3) = Some 4" "div_floor (- 11) (- 3) = Some 3"
    by (simp_all add: div_ceil_def div_floor_def div_round_def sint_div_def word_sless_alt
        signed_divide_int_def)
  from 1 2 3 4 5 show ?thesis by blast
qed

theorem div_floor_ceil_round_witness:
  "(- 11 :: sint) \<noteq> 0 \<and> (3 :: sint) \<noteq> 0
   \<and> sint_range (sint (- 11 :: sint) * sint (3 :: sint))
   \<and> (\<exists>f c. div_floor (- 11) 3 = Some f \<and> div_ceil (- 11) 3 = Some c
          \<and> sint f = - 4 \<and> sint c = - 3)
   \<and> sint_range ((sint (3 :: sint) sdiv 2) * sint (3 :: sint))
   \<and> div_floor 0 3 = Some 0 \<and> div_ceil 0 3 = Some 0 \<and> div_round 0 3 = Some 0"
proof -
  have r: "sint_range (sint (- 11 :: sint) * sint (3 :: sint))"
    "sint_range ((sint (3 :: sint) sdiv 2) * sint (3 :: sint))"
    by (simp_all add: sint_range_def signed_divide_int_def)
  have fl: "\<lfloor>real_of_int (- 11) / real_of_int 3\<rfloor> = (- 4 :: int)"
    "\<lceil>real_of_int (- 11) / real_of_int 3\<rceil> = (- 3 :: int)"
    by (simp_all add: floor_divide_of_int_eq ceiling_divide_eq_div del: of_int_numeral of_int_minus)
  show ?thesis
    using div_floor_ceil_round [of "- 11" 3] div_floor_ceil_round [of 0 3] r fl
    by (simp add: div_floor_def sint_div_def word_sless_alt signed_divide_int_def)
qed

text \<open>
  Where the product wraps the claim fails: \<open>2\<^sup>3\<^sup>2 * 2\<^sup>3\<^sup>2\<close> wraps to 0, so
  \<^verbatim>\<open>div_floor\<close> takes the short-circuit and returns 0 for a quotient of 1; and
  \<^verbatim>\<open>div_round(0, 2^32)\<close> returns \<open>-1\<close>, since \<open>2\<^sup>3\<^sup>1 * 2\<^sup>3\<^sup>2\<close> wraps to a negative value.
\<close>

theorem div_floor_wraps_counterexample:
  "(4294967296 :: sint) \<noteq> 0
   \<and> div_floor 4294967296 4294967296 = Some 0
   \<and> \<lfloor>real_of_int (sint (4294967296 :: sint)) / real_of_int (sint (4294967296 :: sint))\<rfloor> = 1
   \<and> map_option sint (div_round 0 4294967296) = Some (- 1)"
  by (simp add: div_floor_def div_round_def sint_div_def word_sless_alt signed_divide_int_def)

section \<open>Properties of pow10\<close>

lemma sint_outside_table:
  fixes pwr :: sint
  assumes "pwr \<noteq> - 6" "pwr \<noteq> - 5" "pwr \<noteq> - 4" "pwr \<noteq> - 3" "pwr \<noteq> - 2"
    "pwr \<noteq> - 1" "pwr \<noteq> 0" "pwr \<noteq> 1" "pwr \<noteq> 2" "pwr \<noteq> 3" "pwr \<noteq> 4"
    "pwr \<noteq> 5" "pwr \<noteq> 6"
  shows "sint pwr < - 6 \<or> 6 < sint pwr"
proof (rule ccontr)
  have e: "pwr = word_of_int k" if "sint pwr = k" for k
    using that by (metis signed_word_eqI sint_sbintrunc' signed_take_bit_int_eq_self sint_ge sint_lt)
  assume "\<not> ?thesis"
  then have "sint pwr \<in> {- 6, - 5, - 4, - 3, - 2, - 1, 0, 1, 2, 3, 4, 5, 6}"
    by (simp only: insert_iff empty_iff) presburger
  with assms show False
    by (auto dest!: e)
qed

lemma sint_inside_table:
  fixes pwr :: sint
  assumes "\<bar>sint pwr\<bar> \<le> 6"
  shows "pwr \<in> {- 6, - 5, - 4, - 3, - 2, - 1, 0, 1, 2, 3, 4, 5, 6}"
  using assms sint_outside_table [of pwr] by (auto simp: abs_le_iff)

lemma pow10_above:
  fixes pwr :: sint
  assumes "6 < sint pwr"
  shows "pow10 r (Suc frames) pwr
       = (case pow10 r frames (pwr - 6) of None \<Rightarrow> None
          | Some p \<Rightarrow> Some (fmul r (r (10 ^ 6)) p))"
    "sint (pwr - 6) = sint pwr - 6"
proof -
  have "pwr \<notin> {- 6, - 5, - 4, - 3, - 2, - 1, 0, 1, 2, 3, 4, 5, 6}" "0 <s pwr"
    using assms by (auto simp: word_sless_alt)
  then show "pow10 r (Suc frames) pwr
       = (case pow10 r frames (pwr - 6) of None \<Rightarrow> None
          | Some p \<Rightarrow> Some (fmul r (r (10 ^ 6)) p))"
    by (subst pow10.simps) simp
  show "sint (pwr - 6) = sint pwr - 6"
    using assms sint_lt [of pwr] by (simp add: sint_word_ariths signed_take_bit_int_eq_self)
qed

lemma pow10_below:
  fixes pwr :: sint
  assumes "sint pwr < - 6"
  shows "pow10 r (Suc frames) pwr
       = (case pow10 r frames (pwr + 6) of None \<Rightarrow> None
          | Some p \<Rightarrow> Some (fmul r (r (1 / 10 ^ 6)) p))"
    "sint (pwr + 6) = sint pwr + 6"
proof -
  have "pwr \<notin> {- 6, - 5, - 4, - 3, - 2, - 1, 0, 1, 2, 3, 4, 5, 6}" "\<not> 0 <s pwr"
    using assms by (auto simp: word_sless_alt)
  then show "pow10 r (Suc frames) pwr
       = (case pow10 r frames (pwr + 6) of None \<Rightarrow> None
          | Some p \<Rightarrow> Some (fmul r (r (1 / 10 ^ 6)) p))"
    by (subst pow10.simps) simp
  show "sint (pwr + 6) = sint pwr + 6"
    using assms sint_ge [of pwr] by (simp add: sint_word_ariths signed_take_bit_int_eq_self)
qed

lemma pow10_values:
  "pow10 r (Suc f) (- 6) = Some (r (1 / 10 ^ 6))" "pow10 r (Suc f) (- 5) = Some (r (1 / 10 ^ 5))"
  "pow10 r (Suc f) (- 4) = Some (r (1 / 10 ^ 4))" "pow10 r (Suc f) (- 3) = Some (r (1 / 10 ^ 3))"
  "pow10 r (Suc f) (- 2) = Some (r (1 / 10 ^ 2))" "pow10 r (Suc f) (- 1) = Some (r (1 / 10 ^ 1))"
  "pow10 r (Suc f) 0 = Some (r 1)" "pow10 r (Suc f) 1 = Some (r (10 ^ 1))"
  "pow10 r (Suc f) 2 = Some (r (10 ^ 2))" "pow10 r (Suc f) 3 = Some (r (10 ^ 3))"
  "pow10 r (Suc f) 4 = Some (r (10 ^ 4))" "pow10 r (Suc f) 5 = Some (r (10 ^ 5))"
  "pow10 r (Suc f) 6 = Some (r (10 ^ 6))"
  by (simp_all add: pow10.simps)

lemma pow10_table:
  fixes pwr :: sint
  assumes "\<bar>sint pwr\<bar> \<le> 6"
  shows "pow10 r (Suc f) pwr = Some (r (10 powi (sint pwr)))"
  using sint_inside_table [OF assms]
  by (elim insertE emptyE) (simp_all add: pow10_values power_int_minus)

text \<open>The recursion returns exactly when the stack holds a frame for each of its calls.\<close>

lemma pow10_depth_step:
  assumes "6 < \<bar>k\<bar>"
  shows "pow10_depth k = Suc (pow10_depth (\<bar>k\<bar> - 6))"
proof -
  have "(\<bar>k\<bar> + 5) div 6 = (\<bar>k\<bar> - 6 + 5) div 6 + 1"
    by presburger
  moreover have "\<bar>k\<bar> - 6 \<le> 6 \<Longrightarrow> (\<bar>k\<bar> - 6 + 5) div 6 = 1"
    using assms by presburger
  moreover have "0 \<le> (\<bar>k\<bar> - 6 + 5) div 6"
    using assms by presburger
  ultimately show ?thesis
    using assms by (auto simp: pow10_depth_def nat_add_distrib)
qed

lemma pow10_returns_iff:
  "pow10 r f pwr \<noteq> None \<longleftrightarrow> pow10_depth (sint pwr) \<le> f"
proof (induction f arbitrary: pwr)
  case 0
  have "0 < (\<bar>sint pwr\<bar> + 5) div 6" if "\<not> \<bar>sint pwr\<bar> \<le> 6"
    using that by presburger
  then show ?case by (simp add: pow10_depth_def)
next
  case (Suc f)
  consider (t) "\<bar>sint pwr\<bar> \<le> 6" | (a) "6 < sint pwr" | (b) "sint pwr < - 6"
    by linarith
  then show ?case
  proof cases
    case t
    then show ?thesis by (simp add: pow10_table pow10_depth_def)
  next
    case a
    then have d: "pow10_depth (sint pwr) = Suc (pow10_depth (sint (pwr - 6)))"
      using pow10_depth_step [of "sint pwr"] pow10_above(2) [OF a] by simp
    show ?thesis
      unfolding pow10_above(1) [OF a] d using Suc.IH [of "pwr - 6"]
      by (auto split: option.splits)
  next
    case b
    then have "pow10_depth (sint pwr) = Suc (pow10_depth (- sint (pwr + 6)))"
      using pow10_depth_step [of "sint pwr"] pow10_below(2) [OF b] by simp
    then have d: "pow10_depth (sint pwr) = Suc (pow10_depth (sint (pwr + 6)))"
      by (simp add: pow10_depth_def)
    show ?thesis
      unfolding pow10_below(1) [OF b] d using Suc.IH [of "pwr + 6"]
      by (auto split: option.splits)
  qed
qed

lemma binary64_rel:
  assumes "2 powi (- 1022) \<le> \<bar>x\<bar>" "\<bar>x\<bar> \<le> DBL_MAX"
  shows "\<exists>d. binary64 x = Finite (x * (1 + d)) \<and> \<bar>d\<bar> \<le> 1 / 2 ^ 53"
proof -
  have nz: "x \<noteq> 0" using assms(1) two_powi_pos [of "- 1022"] by auto
  obtain y where y: "binary64 x = Finite y"
    using binary64_finite [OF assms(2)] by blast
  from binary64_rel_error [OF y assms(1)] have e: "\<bar>y - x\<bar> \<le> \<bar>x\<bar> / 2 ^ 53" .
  define d where "d = (y - x) / x"
  have "y = x * (1 + d)"
    using nz by (simp add: d_def field_simps)
  moreover have "\<bar>d\<bar> \<le> 1 / 2 ^ 53"
  proof -
    have "\<bar>d\<bar> = \<bar>y - x\<bar> / \<bar>x\<bar>"
      by (simp add: d_def abs_divide)
    also have "\<dots> \<le> (\<bar>x\<bar> / 2 ^ 53) / \<bar>x\<bar>"
      by (intro divide_right_mono e) simp
    also have "\<dots> = 1 / 2 ^ 53"
      using nz by simp
    finally show ?thesis .
  qed
  ultimately show ?thesis
    using y by blast
qed

lemma rel_mult:
  fixes p q :: real
  assumes "\<bar>p\<bar> \<le> P" "\<bar>q\<bar> \<le> Q"
  shows "\<bar>(1 + p) * (1 + q) - 1\<bar> \<le> P + Q + P * Q"
proof -
  have "\<bar>p * q\<bar> \<le> P * Q"
    unfolding abs_mult using assms by (intro mult_mono) simp_all
  moreover have "(1 + p) * (1 + q) - 1 = p + q + p * q"
    by (simp add: algebra_simps)
  ultimately show ?thesis
    using assms by linarith
qed

lemma error_growth:
  fixes B :: real
  assumes "B \<le> 1 / 2 ^ 41" "0 \<le> B"
  shows "(1 / 2 ^ 53 + B + 1 / 2 ^ 53 * B) + 1 / 2 ^ 53
        + (1 / 2 ^ 53 + B + 1 / 2 ^ 53 * B) * (1 / 2 ^ 53) \<le> B + 1 / 2 ^ 51"
  using assms by (simp add: algebra_simps)

lemma ten_powi_bounds:
  assumes "a \<le> k" "k \<le> b"
  shows "(10::real) powi a \<le> 10 powi k" "(10::real) powi k \<le> 10 powi b"
  using assms by (simp_all add: power_int_increasing)

text \<open>One multiplication by a rounded factor: the relative error grows by \<open>2\<^sup>-\<^sup>5\<^sup>1\<close> at most.\<close>

lemma scaled_step:
  fixes C V T g b :: real
  assumes c: "\<bar>g\<bar> \<le> 1 / 2 ^ 53"
    and v: "\<bar>b\<bar> \<le> B" "B \<le> 1 / 2 ^ 41"
    and T: "10 powi (- 307) \<le> T" "T \<le> 10 powi 308"
    and that: "C * V = T"
  shows "\<exists>b'. binary64 (C * (1 + g) * (V * (1 + b))) = Finite (T * (1 + b'))
            \<and> \<bar>b'\<bar> \<le> B + 1 / 2 ^ 51"
proof -
  have B0: "0 \<le> B" using v(1) by linarith
  define e where "e = (1 + g) * (1 + b) - 1"
  have e: "\<bar>e\<bar> \<le> 1 / 2 ^ 53 + B + 1 / 2 ^ 53 * B"
    unfolding e_def using rel_mult [OF c v(1)] .
  then have e40: "\<bar>e\<bar> \<le> 1 / 2 ^ 40"
    using v(2) B0 by simp
  define x where "x = C * (1 + g) * (V * (1 + b))"
  have x: "x = T * (1 + e)"
    by (simp add: x_def e_def that [symmetric] algebra_simps)
  have Tpos: "0 < T"
    using T(1) zero_less_power_int [of "10::real" "- 307"] by linarith
  have lo: "T * (1 - 1 / 2 ^ 40) \<le> x" and hi: "x \<le> T * (1 + 1 / 2 ^ 40)"
    unfolding x using e40 Tpos by (simp_all add: abs_le_iff)
  have "(2::real) powi (- 1022) \<le> 10 powi (- 307) * (1 - 1 / 2 ^ 40)"
    by (simp add: power_int_minus field_simps)
  also have "\<dots> \<le> T * (1 - 1 / 2 ^ 40)"
    using T(1) by (intro mult_right_mono) simp_all
  finally have r1: "2 powi (- 1022) \<le> x"
    using lo by linarith
  then have xpos: "0 < x"
    using two_powi_pos [of "- 1022"] by linarith
  have "T * (1 + 1 / 2 ^ 40) \<le> 10 powi 308 * (1 + 1 / 2 ^ 40)"
    using T(2) by (intro mult_right_mono) simp_all
  also have "\<dots> \<le> DBL_MAX"
    by (simp add: DBL_MAX_def field_simps)
  finally have r2: "x \<le> DBL_MAX"
    using hi by linarith
  from binary64_rel [of x] r1 r2 xpos
  obtain d where d: "binary64 x = Finite (x * (1 + d))" "\<bar>d\<bar> \<le> 1 / 2 ^ 53"
    by auto
  define b' where "b' = (1 + e) * (1 + d) - 1"
  have "\<bar>b'\<bar> \<le> (1 / 2 ^ 53 + B + 1 / 2 ^ 53 * B) + 1 / 2 ^ 53
        + (1 / 2 ^ 53 + B + 1 / 2 ^ 53 * B) * (1 / 2 ^ 53)"
    unfolding b'_def using rel_mult [OF e d(2)] .
  then have "\<bar>b'\<bar> \<le> B + 1 / 2 ^ 51"
    using error_growth [OF v(2) B0] by linarith
  moreover have "x * (1 + d) = T * (1 + b')"
    by (simp add: x b'_def algebra_simps)
  ultimately show ?thesis
    using d(1) by (auto simp: x_def)
qed


lemma pow10_depth_pos: "1 \<le> pow10_depth k"
proof -
  have "0 < (\<bar>k\<bar> + 5) div 6" if "\<not> \<bar>k\<bar> \<le> 6"
    using that by presburger
  then show ?thesis
    by (auto simp: pow10_depth_def)
qed

lemma ten_to_6: "binary64 (10 ^ 6) = Finite (10 ^ 6)"
  using binary64_numeral [of "Num.pow (num.Bit0 (num.Bit1 (num.Bit0 num.One))) (num.Bit0 (num.Bit1 num.One))"]
  by simp

lemma literal_rounded:
  assumes "- 6 \<le> k" "k \<le> 6"
  shows "\<exists>d. binary64 (10 powi k) = Finite (10 powi k * (1 + d)) \<and> \<bar>d\<bar> \<le> 1 / 2 ^ 53"
proof -
  have "(2::real) powi (- 1022) \<le> 10 powi (- 6)"
    by (simp add: power_int_minus field_simps)
  also have "\<dots> \<le> 10 powi k"
    using assms by (intro ten_powi_bounds)
  finally have lo: "2 powi (- 1022) \<le> \<bar>10 powi k :: real\<bar>"
    by simp
  have "(10::real) powi k \<le> 10 powi 6"
    using assms by (intro ten_powi_bounds)
  also have "\<dots> \<le> DBL_MAX"
    by (simp add: DBL_MAX_def)
  finally have hi: "\<bar>10 powi k :: real\<bar> \<le> DBL_MAX"
    by simp
  from binary64_rel [OF lo hi] show ?thesis .
qed

text \<open>
  Between \<open>10\<^sup>-\<^sup>3\<^sup>0\<^sup>7\<close> and \<open>10\<^sup>3\<^sup>0\<^sup>8\<close> every product of the recursion is a normal number: the
  result is a finite double whose relative error is at most \<open>|n| \<sqdot> 2\<^sup>-\<^sup>5\<^sup>1\<close>.
\<close>

lemma pow10_accurate:
  assumes "- 307 \<le> sint n" "sint n \<le> 308" "pow10_depth (sint n) \<le> f"
  shows "\<exists>b. pow10 binary64 f n = Some (Finite (10 powi sint n * (1 + b)))
           \<and> \<bar>b\<bar> \<le> of_int \<bar>sint n\<bar> / 2 ^ 51"
  using assms
proof (induction f arbitrary: n)
  case 0
  then show ?case using pow10_depth_pos [of "sint n"] by simp
next
  case (Suc f)
  define k where "k = sint n"
  have T: "(10::real) powi (- 307) \<le> 10 powi k" "(10::real) powi k \<le> 10 powi 308"
    using Suc.prems(1,2) unfolding k_def by (intro ten_powi_bounds; simp)+
  consider (z) "k = 0" | (t) "\<bar>k\<bar> \<le> 6" "k \<noteq> 0" | (a) "6 < k" | (b) "k < - 6"
    by linarith
  then show ?case
  proof cases
    case z
    then have "pow10 binary64 (Suc f) n = Some (Finite (10 powi sint n * (1 + 0)))"
      using pow10_table [of n binary64 f] by (simp add: k_def)
    then show ?thesis
      by (intro exI [of _ 0]) simp
  next
    case t
    from literal_rounded [of k] t(1)
    obtain d where d: "binary64 (10 powi k) = Finite (10 powi k * (1 + d))" "\<bar>d\<bar> \<le> 1 / 2 ^ 53"
      by (auto simp: abs_le_iff)
    have "1 \<le> \<bar>k\<bar>" using t(2) by linarith
    then have "(1::real) \<le> of_int \<bar>k\<bar>" by (metis of_int_1_le_iff)
    then have "1 / 2 ^ 53 \<le> real_of_int \<bar>k\<bar> / 2 ^ 51"
      by (simp add: field_simps)
    with d(2) have "\<bar>d\<bar> \<le> real_of_int \<bar>k\<bar> / 2 ^ 51" by linarith
    moreover have "pow10 binary64 (Suc f) n = Some (Finite (10 powi k * (1 + d)))"
      using pow10_table [of n binary64 f] t(1) d(1) by (simp add: k_def)
    ultimately show ?thesis
      unfolding k_def by blast
  next
    case a
    then have a': "6 < sint n" by (simp add: k_def)
    note s = pow10_above [OF a']
    have "pow10_depth (sint n) = Suc (pow10_depth (sint (n - 6)))"
      using pow10_depth_step [of "sint n"] a' s(2) by simp
    then have dp: "pow10_depth (sint (n - 6)) \<le> f"
      using Suc.prems(3) by simp
    from Suc.IH [OF _ _ dp] Suc.prems(1,2) a'
    obtain b where b: "pow10 binary64 f (n - 6) = Some (Finite (10 powi (k - 6) * (1 + b)))"
      "\<bar>b\<bar> \<le> of_int \<bar>k - 6\<bar> / 2 ^ 51"
      by (auto simp: s(2) k_def)
    define B :: real where "B = of_int (k - 6) / 2 ^ 51"
    have B: "\<bar>b\<bar> \<le> B" using b(2) a by (simp add: B_def)
    have "k - 6 \<le> 1024"
      using Suc.prems(2) unfolding k_def by linarith
    then have "real_of_int (k - 6) \<le> 1024"
      by (metis of_int_le_iff of_int_numeral)
    then have B41: "B \<le> 1 / 2 ^ 41"
      by (simp add: B_def field_simps)
    have CV: "10 ^ 6 * (10::real) powi (k - 6) = 10 powi k"
      by (simp add: power_int_diff)
    from scaled_step [of 0 b B "10 powi k" "10 ^ 6" "10 powi (k - 6)", OF _ B B41 T CV]
    obtain b' where b': "binary64 (10 ^ 6 * (10 powi (k - 6) * (1 + b))) = Finite (10 powi k * (1 + b'))"
      "\<bar>b'\<bar> \<le> B + 1 / 2 ^ 51"
      by auto
    have "B + 1 / 2 ^ 51 \<le> real_of_int \<bar>k\<bar> / 2 ^ 51"
      using a by (simp add: B_def field_simps)
    with b'(2) have "\<bar>b'\<bar> \<le> real_of_int \<bar>k\<bar> / 2 ^ 51" by linarith
    moreover have "pow10 binary64 (Suc f) n = Some (Finite (10 powi k * (1 + b')))"
      unfolding s(1) b(1) using b'(1) ten_to_6 by simp
    ultimately show ?thesis
      unfolding k_def by blast
  next
    case b
    then have b0: "sint n < - 6" by (simp add: k_def)
    note s = pow10_below [OF b0]
    have "pow10_depth (sint n) = Suc (pow10_depth (- sint (n + 6)))"
      using pow10_depth_step [of "sint n"] b0 s(2) by simp
    then have "pow10_depth (sint n) = Suc (pow10_depth (sint (n + 6)))"
      by (simp add: pow10_depth_def)
    then have dp: "pow10_depth (sint (n + 6)) \<le> f"
      using Suc.prems(3) by simp
    from Suc.IH [OF _ _ dp] Suc.prems(1,2) b0
    obtain c where c: "pow10 binary64 f (n + 6) = Some (Finite (10 powi (k + 6) * (1 + c)))"
      "\<bar>c\<bar> \<le> of_int \<bar>k + 6\<bar> / 2 ^ 51"
      by (auto simp: s(2) k_def)
    define B :: real where "B = of_int (- k - 6) / 2 ^ 51"
    have B: "\<bar>c\<bar> \<le> B" using c(2) b by (simp add: B_def abs_if)
    have "- k - 6 \<le> 1024"
      using Suc.prems(1) unfolding k_def by linarith
    then have "real_of_int (- k - 6) \<le> 1024"
      by (metis of_int_le_iff of_int_numeral)
    then have B41: "B \<le> 1 / 2 ^ 41"
      by (simp add: B_def field_simps)
    from literal_rounded [of "- 6"]
    obtain g where g: "binary64 (1 / 10 ^ 6) = Finite (1 / 10 ^ 6 * (1 + g))" "\<bar>g\<bar> \<le> 1 / 2 ^ 53"
      by (auto simp: power_int_minus field_simps)
    have CV: "1 / 10 ^ 6 * (10::real) powi (k + 6) = 10 powi k"
      by (simp add: power_int_add)
    from scaled_step [of g c B "10 powi k" "1 / 10 ^ 6" "10 powi (k + 6)", OF g(2) B B41 T CV]
    obtain b' where b': "binary64 (1 / 10 ^ 6 * (1 + g) * (10 powi (k + 6) * (1 + c)))
        = Finite (10 powi k * (1 + b'))" "\<bar>b'\<bar> \<le> B + 1 / 2 ^ 51"
      by auto
    have "B + 1 / 2 ^ 51 \<le> real_of_int \<bar>k\<bar> / 2 ^ 51"
      using b by (simp add: B_def field_simps)
    with b'(2) have "\<bar>b'\<bar> \<le> real_of_int \<bar>k\<bar> / 2 ^ 51" by linarith
    moreover have "pow10 binary64 (Suc f) n = Some (Finite (10 powi k * (1 + b')))"
      unfolding s(1) c(1) using b'(1) g(1) by simp
    ultimately show ?thesis
      unfolding k_def by blast
  qed
qed

lemma accurate_bounds:
  fixes T b :: real
  assumes "\<bar>b\<bar> \<le> of_int \<bar>k\<bar> / 2 ^ 51" "\<bar>k\<bar> \<le> 1024" "0 < T"
  shows "T * (1 - 1 / 2 ^ 40) \<le> T * (1 + b)" "T * (1 + b) \<le> T * (1 + 1 / 2 ^ 40)"
    "\<bar>T * (1 + b) - T\<bar> \<le> T / 2 ^ 41"
proof -
  have "real_of_int \<bar>k\<bar> \<le> 1024"
    using assms(2) by (metis of_int_le_iff of_int_numeral)
  then have "real_of_int \<bar>k\<bar> / 2 ^ 51 \<le> 1 / 2 ^ 41"
    by (simp add: field_simps)
  with assms(1) have b: "\<bar>b\<bar> \<le> 1 / 2 ^ 41" by linarith
  then have "- (1 / 2 ^ 40) \<le> b" "b \<le> 1 / 2 ^ 40"
    by (simp_all add: abs_le_iff)
  then show "T * (1 - 1 / 2 ^ 40) \<le> T * (1 + b)" "T * (1 + b) \<le> T * (1 + 1 / 2 ^ 40)"
    using assms(3) by (simp_all add: mult_left_mono)
  have "\<bar>T * (1 + b) - T\<bar> = T * \<bar>b\<bar>"
    using assms(3) by (simp add: algebra_simps abs_mult)
  also have "\<dots> \<le> T * (1 / 2 ^ 41)"
    using b assms(3) by (intro mult_left_mono) simp_all
  finally show "\<bar>T * (1 + b) - T\<bar> \<le> T / 2 ^ 41" by simp
qed

text \<open>From \<open>10\<^sup>3\<^sup>0\<^sup>9\<close> on the product exceeds the largest double.\<close>

lemma pow10_overflow:
  assumes "309 \<le> sint n" "pow10_depth (sint n) \<le> f"
  shows "pow10 binary64 f n = Some PInf"
  using assms
proof (induction f arbitrary: n)
  case 0
  then show ?case using pow10_depth_pos [of "sint n"] by simp
next
  case (Suc f)
  define k where "k = sint n"
  have a: "6 < sint n" using Suc.prems(1) by linarith
  note s = pow10_above [OF a]
  have "pow10_depth (sint n) = Suc (pow10_depth (sint (n - 6)))"
    using pow10_depth_step [of "sint n"] a s(2) by simp
  then have dp: "pow10_depth (sint (n - 6)) \<le> f"
    using Suc.prems(2) by simp
  show ?case
  proof (cases "309 \<le> sint (n - 6)")
    case True
    from Suc.IH [OF True dp] show ?thesis
      unfolding s(1) using ten_to_6 by (simp add: infinity_def)
  next
    case False
    then have r: "- 307 \<le> sint (n - 6)" "sint (n - 6) \<le> 308"
      using a s(2) by linarith+
    from pow10_accurate [OF r dp]
    obtain b where b: "pow10 binary64 f (n - 6) = Some (Finite (10 powi (k - 6) * (1 + b)))"
      "\<bar>b\<bar> \<le> of_int \<bar>k - 6\<bar> / 2 ^ 51"
      by (auto simp: s(2) k_def)
    have "\<bar>k - 6\<bar> \<le> 1024" using r a unfolding s(2) k_def by linarith
    moreover have "0 < (10::real) powi (k - 6)"
      by (simp add: zero_less_power_int)
    ultimately have "10 powi (k - 6) * (1 - 1 / 2 ^ 40) \<le> 10 powi (k - 6) * (1 + b)"
      by (rule accurate_bounds(1) [OF b(2)])
    then have "10 ^ 6 * (10 powi (k - 6) * (1 - 1 / 2 ^ 40)) \<le> 10 ^ 6 * (10 powi (k - 6) * (1 + b))"
      by (intro mult_left_mono) simp_all
    moreover have "10 ^ 6 * (10::real) powi (k - 6) = 10 powi k"
      by (simp add: power_int_diff)
    ultimately have "10 powi k * (1 - 1 / 2 ^ 40) \<le> 10 ^ 6 * (10 powi (k - 6) * (1 + b))"
      by (simp only: mult.assoc [symmetric])
    moreover have "(10::real) powi 309 \<le> 10 powi k"
      using Suc.prems(1) unfolding k_def by (intro power_int_increasing) simp_all
    then have "(10::real) powi 309 * (1 - 1 / 2 ^ 40) \<le> 10 powi k * (1 - 1 / 2 ^ 40)"
      by (intro mult_right_mono) simp_all
    moreover have "(2::real) powi 1024 \<le> 10 powi 309 * (1 - 1 / 2 ^ 40)"
      by (simp add: field_simps)
    ultimately have big: "2 powi 1024 \<le> 10 ^ 6 * (10 powi (k - 6) * (1 + b))"
      by linarith
    then have "0 < 10 ^ 6 * (10 powi (k - 6) * (1 + b))"
      using two_powi_pos [of 1024] by linarith
    with big binary64_overflow [of "10 ^ 6 * (10 powi (k - 6) * (1 + b))"]
    have "binary64 (10 ^ 6 * (10 powi (k - 6) * (1 + b))) = PInf"
      by simp
    then show ?thesis
      unfolding s(1) b(1) using ten_to_6 by simp
  qed
qed

text \<open>
  Below \<open>10\<^sup>-\<^sup>3\<^sup>0\<^sup>7\<close> the results are subnormal numbers and, from \<open>10\<^sup>-\<^sup>3\<^sup>2\<^sup>5\<close> on, zero.
  The bound \<open>2\<^sup>h\<close> with \<open>h = \<lfloor>19 k / 6\<rfloor> - 46\<close> follows the factor \<open>10\<^sup>-\<^sup>6 < 2\<^sup>-\<^sup>1\<^sup>9\<close>.
\<close>

lemma literal_small:
  "\<exists>c. binary64 (1 / 10 ^ 6) = Finite c \<and> 0 \<le> c \<and> c \<le> 2 powi (- 19)"
proof -
  have "binary64 (2 powi (- 19)) = Finite (2 powi (- 19))"
    by (rule binary64_two_powi) simp_all
  moreover have "\<bar>1 / 10 ^ 6 :: real\<bar> \<le> 2 powi (- 19)"
    by (simp add: power_int_minus field_simps)
  ultimately obtain c where c: "binary64 (1 / 10 ^ 6) = Finite c" "\<bar>c\<bar> \<le> 2 powi (- 19)"
    using binary64_le_double by blast
  moreover have "0 \<le> c"
    using binary64_sign(1) [OF c(1)] by simp
  ultimately show ?thesis by auto
qed

lemma h_step: fixes k :: int shows "19 * (k + 6) div 6 - 46 = (19 * k div 6 - 46) + 19"
proof -
  have "19 * (k + 6) = 19 * k + 19 * 6" by simp
  then have "19 * (k + 6) div 6 = 19 * k div 6 + 19"
    by (simp only: div_mult_self3 [of 6 "19 * k" 19])
  then show ?thesis by simp
qed
lemma h_low: fixes k :: int assumes "k \<le> - 325" shows "19 * k div 6 - 46 \<le> - 1075"
proof -
  have "19 * k \<le> - 6175" using assms by simp
  then have "19 * k div 6 \<le> - 6175 div 6" by (intro zdiv_mono1) simp_all
  then show ?thesis by simp
qed
lemma h_high: fixes k :: int assumes "- 307 \<le> k" shows "\<not> 19 * k div 6 - 46 \<le> - 1075"
proof -
  have "- 5833 \<le> 19 * k" using assms by simp
  then have "- 5833 div 6 \<le> 19 * k div 6" by (intro zdiv_mono1) simp_all
  then show ?thesis by simp
qed
lemma h_top: fixes k :: int assumes "k \<le> - 302" shows "19 * k div 6 - 46 \<le> 1023"
proof -
  have "19 * k \<le> 0" using assms by simp
  then have "19 * k div 6 \<le> 0 div 6" by (intro zdiv_mono1) simp_all
  then show ?thesis by simp
qed

lemma underflow_base:
  assumes "- 307 \<le> k" "k \<le> - 302"
  shows "(10::real) powi k * (1 + 1 / 2 ^ 40) \<le> 2 powi (19 * k div 6 - 46)"
proof -
  have "k \<in> {- 307, - 306, - 305, - 304, - 303, - 302}"
    using assms by (simp only: insert_iff empty_iff) presburger
  then show ?thesis
    by (elim insertE emptyE) (simp_all add: power_int_minus field_simps)
qed

lemma pow10_underflow_bound:
  assumes "sint n \<le> - 302" "pow10_depth (sint n) \<le> f"
  shows "\<exists>v. pow10 binary64 f n = Some (Finite v) \<and> 0 \<le> v
           \<and> v \<le> 2 powi (19 * sint n div 6 - 46)
           \<and> (19 * sint n div 6 - 46 \<le> - 1075 \<longrightarrow> v = 0)"
  using assms
proof (induction f arbitrary: n)
  case 0
  then show ?case using pow10_depth_pos [of "sint n"] by simp
next
  case (Suc f)
  define k where "k = sint n"
  show ?case
  proof (cases "- 307 \<le> k")
    case True
    then have r: "- 307 \<le> sint n" "sint n \<le> 308"
      using Suc.prems(1) by (simp_all add: k_def)
    from pow10_accurate [OF r Suc.prems(2)]
    obtain b where b: "pow10 binary64 (Suc f) n = Some (Finite (10 powi k * (1 + b)))"
      "\<bar>b\<bar> \<le> of_int \<bar>k\<bar> / 2 ^ 51"
      by (auto simp: k_def)
    have k: "\<bar>k\<bar> \<le> 1024" using r unfolding k_def by linarith
    have Tpos: "0 < (10::real) powi k"
      by (simp add: zero_less_power_int)
    note ab = accurate_bounds(1,2) [OF b(2) k Tpos]
    have "0 \<le> 10 powi k * (1 - 1 / 2 ^ 40 :: real)"
      by (intro mult_nonneg_nonneg) simp_all
    then have "0 \<le> 10 powi k * (1 + b)"
      using ab(1) by linarith
    moreover have "k \<le> - 302"
      using Suc.prems(1) by (simp add: k_def)
    then have "10 powi k * (1 + b) \<le> 2 powi (19 * k div 6 - 46)"
      using ab(2) underflow_base [OF True] by linarith
    moreover have "\<not> 19 * k div 6 - 46 \<le> - 1075"
      using True by (rule h_high)
    ultimately show ?thesis
      using b(1) unfolding k_def by blast
  next
    case False
    then have b0: "sint n < - 6" by (simp add: k_def)
    note s = pow10_below [OF b0]
    have "pow10_depth (sint n) = Suc (pow10_depth (- sint (n + 6)))"
      using pow10_depth_step [of "sint n"] b0 s(2) by simp
    then have "pow10_depth (sint n) = Suc (pow10_depth (sint (n + 6)))"
      by (simp add: pow10_depth_def)
    then have dp: "pow10_depth (sint (n + 6)) \<le> f"
      using Suc.prems(2) by simp
    have "sint (n + 6) \<le> - 302"
      using False unfolding s(2) k_def by linarith
    from Suc.IH [OF this dp]
    obtain v where v: "pow10 binary64 f (n + 6) = Some (Finite v)" "0 \<le> v"
      "v \<le> 2 powi (19 * (k + 6) div 6 - 46)"
      by (auto simp: s(2) k_def)
    obtain c where c: "binary64 (1 / 10 ^ 6) = Finite c" "0 \<le> c" "c \<le> 2 powi (- 19)"
      using literal_small by blast
    have h: "19 * (k + 6) div 6 - 46 = (19 * k div 6 - 46) + 19"
      by (rule h_step)
    have "c * v \<le> 2 powi (- 19) * 2 powi (19 * (k + 6) div 6 - 46)"
      using c(2,3) v(2,3) by (intro mult_mono) simp_all
    also have "\<dots> = 2 powi (19 * k div 6 - 46)"
      unfolding h by (simp only: two_powi_add [symmetric]) simp
    finally have x: "c * v \<le> 2 powi (19 * k div 6 - 46)" .
    have x0: "0 \<le> c * v" using c(2) v(2) by simp
    have p: "pow10 binary64 (Suc f) n = Some (binary64 (c * v))"
      unfolding s(1) v(1) c(1) by simp
    show ?thesis
    proof (cases "19 * k div 6 - 46 \<le> - 1075")
      case True
      then have "(2::real) powi (19 * k div 6 - 46) \<le> 2 powi (- 1075)"
        by (simp only: two_powi_le_iff)
      with x x0 have "\<bar>c * v\<bar> \<le> 2 powi (- 1075)" by linarith
      then have "binary64 (c * v) = Finite 0" by (rule binary64_underflow)
      then show ?thesis
        unfolding p k_def [symmetric] by simp
    next
      case False
      then have "- 1074 \<le> 19 * k div 6 - 46" by linarith
      moreover have "19 * k div 6 - 46 \<le> 1023"
        using Suc.prems(1) unfolding k_def by (rule h_top)
      ultimately have "binary64 (2 powi (19 * k div 6 - 46)) = Finite (2 powi (19 * k div 6 - 46))"
        by (rule binary64_two_powi)
      moreover have "\<bar>c * v\<bar> \<le> 2 powi (19 * k div 6 - 46)"
        using x x0 by linarith
      ultimately obtain z where z: "binary64 (c * v) = Finite z" "\<bar>z\<bar> \<le> 2 powi (19 * k div 6 - 46)"
        using binary64_le_double by blast
      moreover have "0 \<le> z"
        using binary64_sign(1) [OF z(1) x0] .
      ultimately show ?thesis
        unfolding p k_def [symmetric] using False by auto
    qed
  qed
qed

lemma pow10_underflow:
  assumes "sint n \<le> - 325" "pow10_depth (sint n) \<le> f"
  shows "pow10 binary64 f n = Some (Finite 0)"
proof -
  have "sint n \<le> - 302" "19 * sint n div 6 - 46 \<le> - 1075"
    using assms(1) h_low [of "sint n"] by linarith+
  with pow10_underflow_bound [OF _ assms(2)] show ?thesis
    by auto
qed

lemma pow10_accurate_abs:
  assumes "- 307 \<le> sint n" "sint n \<le> 308" "pow10_depth (sint n) \<le> f"
  shows "\<exists>v. pow10 binary64 f n = Some (Finite v)
           \<and> \<bar>v - 10 powi sint n\<bar> \<le> 10 powi sint n / 2 ^ 41"
proof -
  from pow10_accurate [OF assms]
  obtain b where b: "pow10 binary64 f n = Some (Finite (10 powi sint n * (1 + b)))"
    "\<bar>b\<bar> \<le> of_int \<bar>sint n\<bar> / 2 ^ 51"
    by blast
  have k: "\<bar>sint n\<bar> \<le> 1024" using assms(1,2) by linarith
  have "0 < (10::real) powi sint n"
    by (simp add: zero_less_power_int)
  from accurate_bounds(3) [OF b(2) k this] b(1) show ?thesis
    by blast
qed

lemma pow10_table_exact:
  fixes pwr :: sint
  assumes "0 \<le> sint pwr" "sint pwr \<le> 6"
  shows "pow10 binary64 (Suc f) pwr = Some (Finite (10 powi (sint pwr)))"
proof -
  have "\<bar>sint pwr\<bar> \<le> 6" using assms by simp
  from sint_inside_table [OF this] assms(1)
  have "pwr \<in> {0, 1, 2, 3, 4, 5, 6}"
    by auto
  then show ?thesis
    by (elim insertE emptyE) (simp_all add: pow10_values binary64_numeral)
qed

text \<open>
  Claim C9, with the stack that the recursion needs.  For \<open>|n| \<le> 6\<close> \<^verbatim>\<open>pow10(n)\<close> is the
  literal of the table, the double nearest to \<open>10\<^sup>n\<close>, which for \<open>0 \<le> n \<le> 6\<close> is \<open>10\<^sup>n\<close>
  itself; above 6 it is \<^verbatim>\<open>1e6 * pow10(n - 6)\<close> and below \<open>-6\<close> it is
  \<^verbatim>\<open>1e-6 * pow10(n + 6)\<close>, both products rounded.  The call returns exactly when the stack
  can take the \<open>\<lceil>|n| / 6\<rceil>\<close> frames of the recursion (one frame for \<open>n = 0\<close>).  When it
  returns, the result is a finite double within \<open>2\<^sup>-\<^sup>4\<^sup>1\<close> of \<open>10\<^sup>n\<close>, relatively, for
  \<open>-307 \<le> n \<le> 308\<close>; it is \<open>+\<infinity>\<close> for \<open>n \<ge> 309\<close> and 0 for \<open>n \<le> -325\<close>.
\<close>

theorem pow10_table_and_recursion:
  fixes pwr :: sint
  shows
   "(\<bar>sint pwr\<bar> \<le> 6 \<longrightarrow> pow10 binary64 (Suc frames) pwr = Some (binary64 (10 powi (sint pwr))))
    \<and> (0 \<le> sint pwr \<and> sint pwr \<le> 6
          \<longrightarrow> pow10 binary64 (Suc frames) pwr = Some (Finite (10 powi (sint pwr))))
    \<and> (6 < sint pwr \<longrightarrow> pow10 binary64 (Suc frames) pwr
          = map_option (fmul binary64 (Finite (10 ^ 6))) (pow10 binary64 frames (pwr - 6)))
    \<and> (sint pwr < - 6 \<longrightarrow> pow10 binary64 (Suc frames) pwr
          = map_option (fmul binary64 (binary64 (1 / 10 ^ 6))) (pow10 binary64 frames (pwr + 6)))
    \<and> (pow10 binary64 frames pwr \<noteq> None \<longleftrightarrow> pow10_depth (sint pwr) \<le> frames)
    \<and> (- 307 \<le> sint pwr \<and> sint pwr \<le> 308 \<and> pow10_depth (sint pwr) \<le> frames
          \<longrightarrow> (\<exists>v. pow10 binary64 frames pwr = Some (Finite v)
                 \<and> \<bar>v - 10 powi sint pwr\<bar> \<le> 10 powi sint pwr / 2 ^ 41))
    \<and> (309 \<le> sint pwr \<and> pow10_depth (sint pwr) \<le> frames
          \<longrightarrow> pow10 binary64 frames pwr = Some PInf)
    \<and> (sint pwr \<le> - 325 \<and> pow10_depth (sint pwr) \<le> frames
          \<longrightarrow> pow10 binary64 frames pwr = Some (Finite 0))"
proof -
  have 1: "6 < sint pwr \<longrightarrow> pow10 binary64 (Suc frames) pwr
          = map_option (fmul binary64 (Finite (10 ^ 6))) (pow10 binary64 frames (pwr - 6))"
    using pow10_above(1) [of pwr binary64 frames] ten_to_6
    by (simp add: map_option_case split: option.splits)
  have 2: "sint pwr < - 6 \<longrightarrow> pow10 binary64 (Suc frames) pwr
          = map_option (fmul binary64 (binary64 (1 / 10 ^ 6))) (pow10 binary64 frames (pwr + 6))"
    using pow10_below(1) [of pwr binary64 frames]
    by (simp add: map_option_case split: option.splits)
  show ?thesis
    using 1 2 pow10_table [of pwr binary64 frames] pow10_table_exact [of pwr frames]
      pow10_returns_iff [of binary64 frames pwr] pow10_accurate_abs [of pwr frames]
      pow10_overflow [of pwr frames] pow10_underflow [of pwr frames]
    by blast
qed

theorem pow10_table_and_recursion_witness:
  "\<bar>sint (- 3 :: sint)\<bar> \<le> 6 \<and> pow10 binary64 1 (- 3) = Some (binary64 (1 / 1000))
   \<and> 0 \<le> sint (6 :: sint) \<and> sint (6 :: sint) \<le> 6 \<and> pow10 binary64 1 6 = Some (Finite 1000000)
   \<and> 6 < sint (25 :: sint) \<and> pow10 binary64 5 25
        = map_option (fmul binary64 (Finite 1000000)) (pow10 binary64 4 19)
   \<and> sint (- 21 :: sint) < - 6 \<and> pow10 binary64 4 (- 21)
        = map_option (fmul binary64 (binary64 (1 / 1000000))) (pow10 binary64 3 (- 15))
   \<and> pow10_depth (sint (25 :: sint)) = 5 \<and> pow10 binary64 5 25 \<noteq> None
   \<and> pow10 binary64 4 25 = None
   \<and> pow10_depth (sint (- 21 :: sint)) = 4
   \<and> - 307 \<le> sint (25 :: sint) \<and> sint (25 :: sint) \<le> 308
   \<and> (\<exists>v. pow10 binary64 5 25 = Some (Finite v) \<and> \<bar>v - 10 ^ 25\<bar> \<le> 10 ^ 25 / 2 ^ 41)
   \<and> - 307 \<le> sint (- 21 :: sint) \<and> sint (- 21 :: sint) \<le> 308
   \<and> (\<exists>v. pow10 binary64 4 (- 21) = Some (Finite v)
          \<and> \<bar>v - 1 / 10 ^ 21\<bar> \<le> 1 / 10 ^ 21 / 2 ^ 41)
   \<and> 309 \<le> sint (400 :: sint) \<and> pow10_depth (sint (400 :: sint)) = 67
   \<and> pow10 binary64 67 400 = Some PInf
   \<and> sint (- 400 :: sint) \<le> - 325 \<and> pow10_depth (sint (- 400 :: sint)) = 67
   \<and> pow10 binary64 67 (- 400) = Some (Finite 0)"
proof -
  have s: "sint (- 3 :: sint) = - 3" "sint (6 :: sint) = 6" "sint (25 :: sint) = 25"
    "sint (- 21 :: sint) = - 21" "sint (400 :: sint) = 400" "sint (- 400 :: sint) = - 400"
    by simp_all
  have d: "pow10_depth 25 = 5" "pow10_depth (- 21) = 4" "pow10_depth 400 = 67"
    "pow10_depth (- 400) = 67"
    by (simp_all add: pow10_depth_def)
  have n: "Suc 0 = 1" "Suc 4 = 5" "Suc 3 = 4" "(25 :: sint) - 6 = 19" "(- 21 :: sint) + 6 = - 15"
    by simp_all
  note t1 = pow10_table_and_recursion [of "- 3" 0, unfolded s n]
  note t2 = pow10_table_and_recursion [of 6 0, unfolded s n]
  note t3 = pow10_table_and_recursion [of 25 4, unfolded s n d]
  note t4 = pow10_table_and_recursion [of "- 21" 3, unfolded s n d]
  note t5 = pow10_table_and_recursion [of 25 5, unfolded s d]
  note t6 = pow10_table_and_recursion [of "- 21" 4, unfolded s d]
  note t7 = pow10_table_and_recursion [of 400 67, unfolded s d]
  note t8 = pow10_table_and_recursion [of "- 400" 67, unfolded s d]
  have "pow10 binary64 1 (- 3) = Some (binary64 (1 / 1000))"
    using t1 by (simp add: power_int_minus field_simps)
  moreover have "pow10 binary64 1 6 = Some (Finite 1000000)"
    using t2 ten_to_6 by simp
  moreover have "pow10 binary64 5 25
        = map_option (fmul binary64 (Finite 1000000)) (pow10 binary64 4 19)"
    using t3 by simp
  moreover have "pow10 binary64 4 (- 21)
        = map_option (fmul binary64 (binary64 (1 / 1000000))) (pow10 binary64 3 (- 15))"
    using t4 by simp
  moreover have "pow10 binary64 5 25 \<noteq> None" "pow10 binary64 4 25 = None"
    using t5 t3 by simp_all
  moreover have "\<exists>v. pow10 binary64 5 25 = Some (Finite v) \<and> \<bar>v - 10 ^ 25\<bar> \<le> 10 ^ 25 / 2 ^ 41"
    using t5 by simp
  moreover have "\<exists>v. pow10 binary64 4 (- 21) = Some (Finite v)
          \<and> \<bar>v - 1 / 10 ^ 21\<bar> \<le> 1 / 10 ^ 21 / 2 ^ 41"
    using t6 by (simp add: power_int_minus field_simps)
  moreover have "pow10 binary64 67 400 = Some PInf"
    using t7 by simp
  moreover have "pow10 binary64 67 (- 400) = Some (Finite 0)"
    using t8 by simp
  ultimately show ?thesis
    unfolding s d by simp
qed

text \<open>
  The recursion does not terminate for every argument.  \<^verbatim>\<open>pow10( 100000000 )\<close> nests
  16666667 calls, more than a stack of 8 MiB holds even with frames of 16 bytes; and no
  stack in a 64-bit address space holds the 1537228672809129302 frames of
  \<^verbatim>\<open>pow10( 9223372036854775807 )\<close>.
\<close>

theorem pow10_stack_counterexample:
  "pow10_depth (sint (100000000 :: sint)) = 16666667
   \<and> pow10 binary64 524288 100000000 = None
   \<and> pow10_depth (sint (9223372036854775807 :: sint)) = 1537228672809129302
   \<and> pow10 binary64 1152921504606846976 9223372036854775807 = None"
proof -
  have s: "sint (100000000 :: sint) = 100000000"
    "sint (9223372036854775807 :: sint) = 9223372036854775807"
    by simp_all
  have d: "pow10_depth 100000000 = 16666667"
    "pow10_depth 9223372036854775807 = 1537228672809129302"
    by (simp_all add: pow10_depth_def)
  have "\<not> pow10_depth (sint (100000000 :: sint)) \<le> 524288"
    "\<not> pow10_depth (sint (9223372036854775807 :: sint)) \<le> 1152921504606846976"
    unfolding s d by simp_all
  then have "pow10 binary64 524288 100000000 = None"
    "pow10 binary64 1152921504606846976 9223372036854775807 = None"
    using pow10_returns_iff [of binary64 524288 100000000]
      pow10_returns_iff [of binary64 1152921504606846976 9223372036854775807]
    by blast+
  then show ?thesis
    unfolding s d by simp
qed

section \<open>Properties of the packed symmetric eigendecomposition\<close>

lemma lower_triangle_2: "j \<le> i \<Longrightarrow> i < 2 \<Longrightarrow> (i, j) \<in> {(0, 0), (1, 0), (1, 1 :: nat)}"
  by (cases i; cases j) auto

lemma lower_triangle_3:
  "j \<le> i \<Longrightarrow> i < 3 \<Longrightarrow> (i, j) \<in> {(0, 0), (1, 0), (1, 1), (2, 0), (2, 1), (2, 2 :: nat)}"
  by (auto simp: less_Suc_eq numeral_3_eq_3 numeral_2_eq_2)

lemma upper_triangle_2: "i < j \<Longrightarrow> j < 2 \<Longrightarrow> (i, j) = (0, 1 :: nat)"
  by (auto simp: less_Suc_eq numeral_2_eq_2)

lemma upper_triangle_3: "i < j \<Longrightarrow> j < 3 \<Longrightarrow> (i, j) \<in> {(0, 1), (0, 2), (1, 2 :: nat)}"
  by (auto simp: less_Suc_eq numeral_3_eq_3 numeral_2_eq_2)

text \<open>
  Claim C5.  \<^verbatim>\<open>SymmetricEigenDecompositionPacked\<close> raises its exception exactly when
  \<open>n\<close> is neither 2 nor 3, and then leaves the memory as it was.  For \<open>n\<close> 2 or 3 it raises
  nothing and its effect is that of one call of \<^verbatim>\<open>SymmetricEigenDecomposition\<close> with the
  same \<open>n\<close>, \<open>lambdas\<close> and \<open>vectors\<close> and a column-major matrix of 9 elements whose lower
  triangle (element \<open>i + j * n\<close> for \<open>j \<le> i < n\<close>) holds the packed input at the documented
  position, and whose upper triangle is left unassigned.
\<close>

theorem SymmetricEigenDecompositionPacked_spec:
  "(fst (SymmetricEigenDecompositionPacked SED n input lambdas vectors s) \<noteq> None
      \<longleftrightarrow> n \<noteq> 2 \<and> n \<noteq> 3)
   \<and> (n \<noteq> 2 \<and> n \<noteq> 3 \<longrightarrow>
        snd (SymmetricEigenDecompositionPacked SED n input lambdas vectors s) = s)
   \<and> (n = 2 \<or> n = 3 \<longrightarrow>
        (\<exists>matrix. SymmetricEigenDecompositionPacked SED n input lambdas vectors s
                    = (None, SED n matrix lambdas vectors s)
           \<and> length matrix = 9
           \<and> (\<forall>i j. j \<le> i \<and> i < n \<longrightarrow>
                  matrix ! (i + j * n) = Some (input (packed_position n i j)))
           \<and> (\<forall>i j. i < j \<and> j < n \<longrightarrow> matrix ! (i + j * n) = None)))"
proof -
  let ?P = "SymmetricEigenDecompositionPacked SED n input lambdas vectors s"
  have 1: "fst ?P \<noteq> None \<longleftrightarrow> n \<noteq> 2 \<and> n \<noteq> 3"
    by (simp add: SymmetricEigenDecompositionPacked_def Let_def)
  have 2: "snd ?P = s" if "n \<noteq> 2 \<and> n \<noteq> 3"
    using that by (simp add: SymmetricEigenDecompositionPacked_def Let_def)
  have 3: "\<exists>matrix. ?P = (None, SED n matrix lambdas vectors s) \<and> length matrix = 9
      \<and> (\<forall>i j. j \<le> i \<and> i < n \<longrightarrow> matrix ! (i + j * n) = Some (input (packed_position n i j)))
      \<and> (\<forall>i j. i < j \<and> j < n \<longrightarrow> matrix ! (i + j * n) = None)"
    if "n = 2 \<or> n = 3"
    using that
  proof
    assume n: "n = 2"
    let ?m = "[Some (input 0), Some (input 2), None, Some (input 1), None, None, None, None, None]"
    have "?P = (None, SED n ?m lambdas vectors s)"
      by (simp add: SymmetricEigenDecompositionPacked_def n Let_def eval_nat_numeral)
    moreover have "?m ! (i + j * n) = Some (input (packed_position n i j))"
      if "j \<le> i \<and> i < n" for i j
      using lower_triangle_2 [of j i] that by (auto simp: n packed_position_def)
    moreover have "?m ! (i + j * n) = None" if "i < j \<and> j < n" for i j
      using upper_triangle_2 [of i j] that by (auto simp: n)
    ultimately show ?thesis
      by (intro exI [of _ ?m]) simp
  next
    assume n: "n = 3"
    let ?m = "[Some (input 0), Some (input 3), Some (input 4), None, Some (input 1),
      Some (input 5), None, None, Some (input 2)]"
    have "?P = (None, SED n ?m lambdas vectors s)"
      by (simp add: SymmetricEigenDecompositionPacked_def n Let_def eval_nat_numeral)
    moreover have "?m ! (i + j * n) = Some (input (packed_position n i j))"
      if "j \<le> i \<and> i < n" for i j
      using lower_triangle_3 [of j i] that by (auto simp: n packed_position_def)
    moreover have "?m ! (i + j * n) = None" if "i < j \<and> j < n" for i j
      using upper_triangle_3 [of i j] that by (auto simp: n)
    ultimately show ?thesis
      by (intro exI [of _ ?m]) simp
  qed
  from 1 2 3 show ?thesis by blast
qed

theorem SymmetricEigenDecompositionPacked_spec_witness:
  "((4::nat) \<noteq> 2 \<and> (4::nat) \<noteq> 3)
   \<and> fst (SymmetricEigenDecompositionPacked (\<lambda>n m l v s. (n, m) # s) 4 real () () []) \<noteq> None
   \<and> snd (SymmetricEigenDecompositionPacked (\<lambda>n m l v s. (n, m) # s) 4 real () () []) = []
   \<and> ((3::nat) = 2 \<or> (3::nat) = 3)
   \<and> (\<exists>matrix. SymmetricEigenDecompositionPacked (\<lambda>n m l v s. (n, m) # s) 3 real () () []
                    = (None, [(3, matrix)])
          \<and> length matrix = 9
          \<and> matrix ! (2 + 1 * 3) = Some (real (packed_position 3 2 1))
          \<and> matrix ! (1 + 2 * 3) = None)"
proof -
  from SymmetricEigenDecompositionPacked_spec
    [of "\<lambda>n m l v s. (n, m) # s" 3 real "()" "()" "[]"]
  obtain matrix where m:
    "SymmetricEigenDecompositionPacked (\<lambda>n m l v s. (n, m) # s) 3 real () () []
       = (None, [(3, matrix)])"
    "length matrix = 9"
    "\<forall>i j. j \<le> i \<and> i < 3 \<longrightarrow> matrix ! (i + j * 3) = Some (real (packed_position 3 i j))"
    "\<forall>i j. i < j \<and> j < 3 \<longrightarrow> matrix ! (i + j * 3) = None"
    by auto
  have "matrix ! (2 + 1 * 3) = Some (real (packed_position 3 2 1))"
    using m(3) [rule_format, of 1 2] by simp
  moreover have "matrix ! (1 + 2 * 3) = None"
    using m(4) [rule_format, of 1 2] by simp
  ultimately show ?thesis
    using SymmetricEigenDecompositionPacked_spec
      [of "\<lambda>n m l v s. (n, m) # s" 4 real "()" "()" "[]"] m(1,2)
    by auto
qed

section \<open>Properties of the accumulators\<close>

subsection \<open>Conversions and checked division\<close>

lemma dfl_eq_0_iff [simp]: "dfl n = 0 \<longleftrightarrow> n = 0"
  by (simp only: dfl_def of_nat_eq_0_iff unat_eq_0)

lemma dfl_0 [simp]: "dfl 0 = 0"
  by simp

lemma dfl_nonneg [simp]: "0 \<le> dfl n"
  by (simp only: dfl_def of_nat_0_le_iff)

lemma dfl_pred: "n \<noteq> 0 \<Longrightarrow> dfl (n - 1) = dfl n - 1"
proof -
  assume "n \<noteq> 0"
  then have "unat (n - 1) = unat n - 1" "1 \<le> unat n"
    by (simp_all add: unat_minus_one Suc_leI unat_gt_0)
  then show ?thesis
    by (simp only: dfl_def of_nat_diff of_nat_1)
qed

lemma dfl_of_nat: "k < 2 ^ 64 \<Longrightarrow> dfl (of_nat k) = real k"
  by (simp only: dfl_def unat_of_nat) simp

lemma rdiv_simps [simp]:
  "rdiv x 0 = None" "y \<noteq> 0 \<Longrightarrow> rdiv x y = Some (x / y)"
  by (simp_all add: rdiv_def)

subsection \<open>The two Push formulas agree on the first two moments\<close>

lemma Push_first_two:
  "map_option first_two (Statistics_Push s x) = Variance_Push (first_two s) x"
proof (cases "sa_n s + 1 = 0")
  case True
  then show ?thesis
    by (simp add: Statistics_Push_def Variance_Push_def first_two_def)
next
  case False
  then have nz: "dfl (sa_n s + 1) \<noteq> 0" by simp
  have k: "dfl (sa_n s) = dfl (sa_n s + 1) - 1"
    using dfl_pred [OF False] by simp
  show ?thesis
    using nz
    by (simp add: Statistics_Push_def Variance_Push_def first_two_def Let_def k
        field_simps)
qed

lemma PushAll_first_two:
  "map_option first_two (Statistics_PushAll s xs) = Variance_PushAll (first_two s) xs"
proof (induction xs arbitrary: s)
  case Nil
  then show ?case by simp
next
  case (Cons x xs)
  show ?case
  proof (cases "Statistics_Push s x")
    case None
    then show ?thesis using Push_first_two [of s x] by simp
  next
    case (Some s')
    then show ?thesis using Push_first_two [of s x, symmetric] Cons.IH [of s'] by simp
  qed
qed

lemma Variance_first_two: "Variance_Variance (first_two s) = Statistics_Variance s"
  by (simp add: Variance_Variance_def Statistics_Variance_def first_two_def)

lemma StandardDeviation_first_two:
  "Variance_StandardDeviation (first_two s) = Statistics_StandardDeviation s"
  by (simp add: Variance_StandardDeviation_def Statistics_StandardDeviation_def
      Variance_first_two)

lemma Variance_Push_Some:
  assumes "unat (va_n a) + 1 < 2 ^ 64"
  shows "\<exists>a'. Variance_Push a x = Some a' \<and> unat (va_n a') = unat (va_n a) + 1"
proof -
  have u: "unat (va_n a + 1) = unat (va_n a) + 1"
    using assms by (simp add: unat_word_ariths)
  then have "va_n a + 1 \<noteq> 0"
    by (metis add_is_0 unat_0 zero_neq_one)
  then show ?thesis
    using u by (simp add: Variance_Push_def Let_def)
qed

lemma Variance_PushAll_Some:
  assumes "unat (va_n a) + length xs < 2 ^ 64"
  shows "\<exists>a'. Variance_PushAll a xs = Some a' \<and> unat (va_n a') = unat (va_n a) + length xs"
  using assms
proof (induction xs arbitrary: a)
  case Nil
  then show ?case by simp
next
  case (Cons x xs)
  then obtain a1 where a1: "Variance_Push a x = Some a1" "unat (va_n a1) = unat (va_n a) + 1"
    using Variance_Push_Some [of a x] by auto
  with Cons.prems have "unat (va_n a1) + length xs < 2 ^ 64" by simp
  from Cons.IH [OF this] a1 show ?case by auto
qed

subsection \<open>Reachable states and the accessors\<close>

lemma Push_m2_mono:
  assumes "Statistics_Push a x = Some a'"
  shows "sa_m2 a \<le> sa_m2 a'"
proof -
  have nz: "dfl (sa_n a + 1) \<noteq> 0"
    using assms by (auto simp: Statistics_Push_def Let_def rdiv_def split: if_splits)
  then have "sa_m2 a' = sa_m2 a + (x - sa_m1 a) * ((x - sa_m1 a) / dfl (sa_n a + 1)) * dfl (sa_n a + 1 - 1)"
    using assms by (auto simp: Statistics_Push_def Let_def)
  moreover have "0 \<le> (x - sa_m1 a) * ((x - sa_m1 a) / dfl (sa_n a + 1)) * dfl (sa_n a + 1 - 1)"
    by (simp add: zero_le_mult_iff zero_le_divide_iff mult_le_0_iff divide_le_0_iff) 
  ultimately show ?thesis by simp
qed

lemma merge_m2_nonneg:
  assumes "Statistics_merge a b = Some c" "0 \<le> sa_m2 a" "0 \<le> sa_m2 b"
  shows "0 \<le> sa_m2 c"
proof -
  have "sa_m2 c = sa_m2 a + (sa_m2 b
      + (sa_m1 b - sa_m1 a) * (sa_m1 b - sa_m1 a) * dfl (sa_n a * sa_n b) / dfl (sa_n a + sa_n b))"
    using assms(1) by (auto simp: Statistics_merge_def Let_def split: if_splits)
  moreover have "0 \<le> (sa_m1 b - sa_m1 a) * (sa_m1 b - sa_m1 a) * dfl (sa_n a * sa_n b)
      / dfl (sa_n a + sa_n b)"
    by (intro divide_nonneg_nonneg mult_nonneg_nonneg zero_le_square dfl_nonneg)
  ultimately show ?thesis using assms(2,3) by simp
qed

lemma reachable_m2_nonneg: "Statistics_reachable a \<Longrightarrow> 0 \<le> sa_m2 a"
proof (induction rule: Statistics_reachable.induct)
  case empty
  then show ?case by (simp add: Statistics_empty_def)
next
  case (push a x a')
  then show ?case using Push_m2_mono [of a x a'] by simp
next
  case (merge a b c)
  then show ?case using merge_m2_nonneg [of a b c] by simp
qed

lemma PushAll_reachable:
  "Statistics_reachable s \<Longrightarrow> Statistics_PushAll s xs = Some s' \<Longrightarrow> Statistics_reachable s'"
proof (induction xs arbitrary: s)
  case Nil
  then show ?case by simp
next
  case (Cons x xs)
  then show ?case
    by (auto split: option.splits intro: Statistics_reachable.push)
qed

lemma Variance_total:
  "Statistics_Variance a = Some (if sa_n a \<le> 1 then 0 else sa_m2 a / (dfl (sa_n a) - 1))"
proof (cases "1 < sa_n a")
  case True
  then have "sa_n a \<noteq> 0" "sa_n a - 1 \<noteq> 0" by (auto simp: word_less_nat_alt unat_eq_0)
  then have nz: "dfl (sa_n a - 1) \<noteq> 0" and eq: "dfl (sa_n a - 1) = dfl (sa_n a) - 1"
    by (simp, intro dfl_pred)
  have "rdiv (sa_m2 a) (dfl (sa_n a - 1)) = Some (sa_m2 a / (dfl (sa_n a) - 1))"
    using rdiv_simps(2) [OF nz, of "sa_m2 a"] unfolding eq .
  then show ?thesis
    using True by (simp add: Statistics_Variance_def not_le [symmetric])
next
  case False
  then have "sa_n a \<le> 1" by (simp add: not_less)
  with False show ?thesis by (simp add: Statistics_Variance_def)
qed







lemma dfl_less_iff: "dfl a < dfl b \<longleftrightarrow> a < b"
  by (simp only: dfl_def of_nat_less_iff word_less_nat_alt)

lemma dfl_numeral [simp]: "dfl 1 = 1" "dfl 2 = 2" "dfl 3 = 3"
  by (simp_all add: dfl_def)



lemma first_two_empty: "first_two Statistics_empty = Variance_empty"
  by (simp add: first_two_def Statistics_empty_def Variance_empty_def)

lemma StandardDeviation_total:
  assumes "0 \<le> sa_m2 a"
  shows "Statistics_StandardDeviation a \<noteq> None"
proof -
  have "0 \<le> (if sa_n a \<le> 1 then 0 else sa_m2 a / (dfl (sa_n a) - 1))"
  proof (cases "sa_n a \<le> 1")
    case True
    then show ?thesis by simp
  next
    case False
    then have "1 < sa_n a" by (simp add: not_le)
    then have "1 < dfl (sa_n a)" using dfl_less_iff [of 1 "sa_n a"] by simp
    then show ?thesis using False assms by simp
  qed
  then show ?thesis
    by (simp add: Statistics_StandardDeviation_def Variance_total rstd_sqrt_def)
qed

text \<open>
  Claim C2.  Pushing the same sequence of samples, element by element, into a
  StatisticsAccumulator and into a VarianceAccumulator (fewer than \<open>2\<^sup>6\<^sup>4\<close> samples, so that
  the counter does not wrap) leaves both accumulators defined, with the same
  \<^verbatim>\<open>Number()\<close>, \<^verbatim>\<open>Mean()\<close>, \<^verbatim>\<open>Variance()\<close> and \<^verbatim>\<open>StandardDeviation()\<close>, none of them a NaN.
\<close>

theorem Push_formulas_agree:
  assumes "length xs < 2 ^ 64"
  shows "\<exists>s v. Statistics_PushAll Statistics_empty xs = Some s
            \<and> Variance_PushAll Variance_empty xs = Some v
            \<and> Statistics_Number s = Variance_Number v
            \<and> Statistics_Mean s = Variance_Mean v
            \<and> Statistics_Variance s = Variance_Variance v
            \<and> Statistics_StandardDeviation s = Variance_StandardDeviation v
            \<and> Statistics_Variance s \<noteq> None
            \<and> Statistics_StandardDeviation s \<noteq> None"
proof -
  from Variance_PushAll_Some [of Variance_empty xs] assms
  obtain v where v: "Variance_PushAll Variance_empty xs = Some v"
    by (auto simp: Variance_empty_def)
  with PushAll_first_two [of Statistics_empty xs]
  obtain s where s: "Statistics_PushAll Statistics_empty xs = Some s" "first_two s = v"
    by (auto simp: first_two_empty)
  have "Statistics_reachable s"
    using PushAll_reachable [OF Statistics_reachable.empty s(1)] .
  then have sd: "Statistics_StandardDeviation s \<noteq> None"
    by (intro StandardDeviation_total reachable_m2_nonneg)
  have "Statistics_Number s = Variance_Number v" "Statistics_Mean s = Variance_Mean v"
    using s(2) by (auto simp: Statistics_Number_def Variance_Number_def Statistics_Mean_def
        Variance_Mean_def first_two_def)
  moreover have "Statistics_Variance s = Variance_Variance v"
    "Statistics_StandardDeviation s = Variance_StandardDeviation v"
    using s(2) Variance_first_two [of s] StandardDeviation_first_two [of s] by simp_all
  moreover have "Statistics_Variance s \<noteq> None"
    by (simp add: Variance_total)
  ultimately show ?thesis
    using s(1) v sd by blast
qed

theorem Push_formulas_agree_witness:
  "length [1, 2, 3, 4, 5, 6 :: dfloat] < 2 ^ 64
   \<and> (\<exists>s v. Statistics_PushAll Statistics_empty [1, 2, 3, 4, 5, 6] = Some s
            \<and> Variance_PushAll Variance_empty [1, 2, 3, 4, 5, 6] = Some v
            \<and> v = \<lparr>va_n = 6, va_m1 = 7 / 2, va_m2 = 35 / 2\<rparr>
            \<and> Statistics_Mean s = Variance_Mean v
            \<and> Statistics_Variance s = Variance_Variance v
            \<and> Statistics_StandardDeviation s = Variance_StandardDeviation v)"
proof -
  have l: "length [1, 2, 3, 4, 5, 6 :: dfloat] < 2 ^ 64"
    by simp
  have "Variance_PushAll Variance_empty [1, 2, 3, 4, 5, 6]
      = Some \<lparr>va_n = 6, va_m1 = 7 / 2, va_m2 = 35 / 2\<rparr>"
    by (simp add: Variance_Push_def Variance_empty_def Let_def rdiv_def dfl_def)
  with Push_formulas_agree [OF l] l show ?thesis
    by auto
qed



subsection \<open>Pushing computes the mean and the sum of squared deviations; merging concatenates\<close>































subsection \<open>Merging with a default-constructed accumulator\<close>

lemma Variance_merge_empty:
  assumes "va_n A \<noteq> 0"
  shows "Variance_merge A Variance_empty = Some A" "Variance_merge Variance_empty A = Some A"
  using assms by (simp_all add: Variance_merge_def Variance_empty_def Let_def)

lemma Statistics_merge_empty:
  assumes "sa_n A * sa_n A * sa_n A \<noteq> 0"
  shows "Statistics_merge A Statistics_empty = Some A"
    "Statistics_merge Statistics_empty A = Some A"
proof -
  have "sa_n A \<noteq> 0" "sa_n A * sa_n A \<noteq> 0"
    using assms by auto
  then show "Statistics_merge A Statistics_empty = Some A"
    "Statistics_merge Statistics_empty A = Some A"
    using assms by (simp_all add: Statistics_merge_def Statistics_empty_def Let_def)
qed

lemma Statistics_Push_constant:
  assumes "n + 1 \<noteq> 0"
  shows "Statistics_Push \<lparr>sa_n = n, sa_m1 = c, sa_m2 = 0, sa_m3 = 0, sa_m4 = 0\<rparr> c
       = Some \<lparr>sa_n = n + 1, sa_m1 = c, sa_m2 = 0, sa_m3 = 0, sa_m4 = 0\<rparr>"
  using assms by (simp add: Statistics_Push_def Let_def)

lemma Statistics_Push_first:
  "Statistics_Push Statistics_empty c
       = Some \<lparr>sa_n = 1, sa_m1 = c, sa_m2 = 0, sa_m3 = 0, sa_m4 = 0\<rparr>"
  by (simp add: Statistics_Push_def Statistics_empty_def Let_def)

lemma Statistics_PushAll_constant:
  assumes "j + k < 2 ^ 64"
  shows "Statistics_PushAll \<lparr>sa_n = of_nat j, sa_m1 = c, sa_m2 = 0, sa_m3 = 0, sa_m4 = 0\<rparr>
           (replicate k c)
       = Some \<lparr>sa_n = of_nat (j + k), sa_m1 = c, sa_m2 = 0, sa_m3 = 0, sa_m4 = 0\<rparr>"
  using assms
proof (induction k arbitrary: j)
  case 0
  then show ?case by simp
next
  case (Suc k)
  have "Suc j < 2 ^ 64" using Suc.prems by simp
  then have "dfl (of_nat (Suc j)) \<noteq> 0"
    by (simp only: dfl_of_nat of_nat_eq_0_iff nat.distinct not_False_eq_True)
  then have "(of_nat j + 1 :: uint) \<noteq> 0"
    by (simp add: add.commute)
  from Statistics_Push_constant [OF this, of c] Suc.IH [of "Suc j"] Suc.prems
  show ?case by (simp add: ac_simps)
qed

lemma Statistics_PushAll_replicate:
  assumes "0 < k" "k < 2 ^ 64"
  shows "Statistics_PushAll Statistics_empty (replicate k c)
       = Some \<lparr>sa_n = of_nat k, sa_m1 = c, sa_m2 = 0, sa_m3 = 0, sa_m4 = 0\<rparr>"
proof -
  obtain k' where k': "k = Suc k'"
    using assms(1) by (cases k) simp_all
  then have "1 + k' < 2 ^ 64"
    using assms(2) by simp
  from Statistics_PushAll_constant [OF this, of c] show ?thesis
    by (simp add: k' Statistics_Push_first)
qed

text \<open>
  Claim C10 at a count of \<open>2\<^sup>2\<^sup>2\<close>.  The state is the one reached by pushing \<open>2\<^sup>2\<^sup>2\<close> samples
  equal to 1.  The divisor \<^verbatim>\<open>n2 * n_\<close> is the \<^verbatim>\<open>dip::uint\<close> product \<open>2\<^sup>6\<^sup>6\<close>, which wraps
  to 0, so merging this state with a default-constructed accumulator, on either side,
  divides by zero and does not return the state.
\<close>

theorem Statistics_merge_empty_overflow:
  "Statistics_PushAll Statistics_empty (replicate 4194304 1)
     = Some \<lparr>sa_n = 4194304, sa_m1 = 1, sa_m2 = 0, sa_m3 = 0, sa_m4 = 0\<rparr>
   \<and> 1 \<le> Statistics_Number \<lparr>sa_n = 4194304, sa_m1 = 1, sa_m2 = 0, sa_m3 = 0, sa_m4 = 0\<rparr>
   \<and> Statistics_merge \<lparr>sa_n = 4194304, sa_m1 = 1, sa_m2 = 0, sa_m3 = 0, sa_m4 = 0\<rparr>
         Statistics_empty = None
   \<and> Statistics_merge Statistics_empty
         \<lparr>sa_n = 4194304, sa_m1 = 1, sa_m2 = 0, sa_m3 = 0, sa_m4 = 0\<rparr> = None"
proof -
  have k: "(0::nat) < 4194304" "(4194304::nat) < 2 ^ 64"
    by simp_all
  have w: "(of_nat 4194304 :: uint) = 4194304"
    by simp
  have 1: "Statistics_PushAll Statistics_empty (replicate 4194304 1)
     = Some \<lparr>sa_n = 4194304, sa_m1 = 1, sa_m2 = 0, sa_m3 = 0, sa_m4 = 0\<rparr>"
    using Statistics_PushAll_replicate [OF k, of 1] by (simp only: w)
  have 2: "1 \<le> Statistics_Number \<lparr>sa_n = 4194304, sa_m1 = 1, sa_m2 = 0, sa_m3 = 0, sa_m4 = 0\<rparr>"
    by (simp add: Statistics_Number_def word_le_nat_alt)
  have 3: "Statistics_merge \<lparr>sa_n = 4194304, sa_m1 = 1, sa_m2 = 0, sa_m3 = 0, sa_m4 = 0\<rparr>
         Statistics_empty = None"
    "Statistics_merge Statistics_empty
         \<lparr>sa_n = 4194304, sa_m1 = 1, sa_m2 = 0, sa_m3 = 0, sa_m4 = 0\<rparr> = None"
    by (simp_all add: Statistics_merge_def Statistics_empty_def Let_def)
  from 1 2 3 show ?thesis
    by (intro conjI)
qed

text \<open>
  Outside the range that the statements above cover there is a second wrap-around in
  \<^verbatim>\<open>operator+=\<close>: the factor \<^verbatim>\<open>an - b.n_\<close> of the \<^verbatim>\<open>m3_\<close> update is a \<^verbatim>\<open>dip::uint\<close>
  difference, so it is huge and positive when the left operand holds fewer samples than
  the right one.  Merging the accumulator of the sample 0 with that of the samples 1, 1
  gives a third moment sum near \<open>4 \<sqdot> 10\<^sup>1\<^sup>8\<close>; pushing 0, 1, 1 gives \<open>-2/9\<close>.
\<close>

lemma Statistics_merge_m3_wraps:
  "Statistics_PushAll Statistics_empty [0]
     = Some \<lparr>sa_n = 1, sa_m1 = 0, sa_m2 = 0, sa_m3 = 0, sa_m4 = 0\<rparr>
   \<and> Statistics_PushAll Statistics_empty [1, 1]
     = Some \<lparr>sa_n = 2, sa_m1 = 1, sa_m2 = 0, sa_m3 = 0, sa_m4 = 0\<rparr>
   \<and> Statistics_merge \<lparr>sa_n = 1, sa_m1 = 0, sa_m2 = 0, sa_m3 = 0, sa_m4 = 0\<rparr>
         \<lparr>sa_n = 2, sa_m1 = 1, sa_m2 = 0, sa_m3 = 0, sa_m4 = 0\<rparr>
     = Some \<lparr>sa_n = 3, sa_m1 = 2 / 3, sa_m2 = 2 / 3,
              sa_m3 = 12297829382473034410 / 3, sa_m4 = 2 / 9\<rparr>
   \<and> Statistics_PushAll Statistics_empty [0, 1, 1]
     = Some \<lparr>sa_n = 3, sa_m1 = 2 / 3, sa_m2 = 2 / 3, sa_m3 = - 2 / 9, sa_m4 = 2 / 9\<rparr>"
  by (simp add: Statistics_merge_def Statistics_Push_def Statistics_empty_def Let_def rdiv_def
      dfl_def unsigned_minus_1_eq_mask mask_eq_exp_minus_1)

section \<open>Properties of the GreyMu feature\<close>

lemma Initialize_pairs_2: "Initialize_pairs 2 = [(0, 0), (1, 1), (1, 0)]"
  by (simp add: Initialize_pairs_def upt_rec numeral_2_eq_2)

lemma Initialize_pairs_3: "Initialize_pairs 3 = [(0, 0), (1, 1), (2, 2), (1, 0), (2, 0), (2, 1)]"
  by (simp add: Initialize_pairs_def upt_rec numeral_3_eq_3)

lemma ScanLine_pairs_2: "ScanLine_pairs 2 = [(0, 0), (0, 1), (1, 1)]"
  by (simp add: ScanLine_pairs_def upt_rec numeral_2_eq_2)

lemma ScanLine_pairs_3: "ScanLine_pairs 3 = [(0, 0), (0, 1), (0, 2), (1, 1), (1, 2), (2, 2)]"
  by (simp add: ScanLine_pairs_def upt_rec numeral_3_eq_3)

lemma length_add_at [simp]: "length (add_at d i v) = length d"
  by (simp add: add_at_def)

lemma length_foldl_add_at:
  "length (foldl (\<lambda>d x. add_at d (f x) (g x)) d xs) = length d"
  by (induction xs arbitrary: d) simp_all

lemma length_accumulate [simp]: "length (accumulate n base coordinates grey d) = length d"
proof -
  have 1: "length (foldl (\<lambda>d ii. add_at d (base + ii) (dfl (coordinates ! ii) * grey)) d xs)
      = length d" for xs d
    by (rule length_foldl_add_at)
  have 2: "length (foldl (\<lambda>d (kk, (ii, jj)).
        add_at d (base + kk) (dfl (coordinates ! ii * coordinates ! jj) * grey)) d xs)
      = length d" for xs d
    using length_foldl_add_at [of "\<lambda>(kk, (ii, jj)). base + kk"
        "\<lambda>(kk, (ii, jj)). dfl (coordinates ! ii * coordinates ! jj) * grey" d xs]
    by (simp add: case_prod_unfold)
  show ?thesis
    by (simp add: accumulate_def Let_def 1 2)
qed

lemma length_ScanLine_loop [simp]:
  "length (ScanLine_loop n nv oi dimension objectID dat coordinates d line) = length d"
  by (induction line arbitrary: objectID dat coordinates d)
     (auto simp: Let_def split: option.splits)

lemma GreyMu_state_invariant:
  assumes "GreyMu_state U label nObjects st"
  shows "(nD st = 2 \<or> nD st = 3)
    \<and> nD st = Dimensionality label
    \<and> nValues st = nD st + (if nD st = 2 then 3 else 6) + 1
    \<and> length (data st) = nObjects * nValues st
    \<and> scales st = map (\<lambda>(ii, jj). magnitude (size_or_pixel U label ii)
                                     * magnitude (size_or_pixel U label jj))
                     (Initialize_pairs (nD st))"
  using assms
proof (induction rule: GreyMu_state.induct)
  case (init grey out st)
  then show ?case
    by (auto simp: Initialize_def Let_def algebra_simps split: if_splits)
next
  case (scan st coordinates dimension objectIndices line)
  then show ?case
    by (auto simp: ScanLine_def)
qed

lemma Finish_zero_weight:
  assumes "data st ! (objectIndex * nValues st + (nValues st - 1)) = 0"
  shows "Finish st objectIndex = Some (replicate (length (scales st)) 0)"
  using assms by (simp add: Finish_def Let_def map_replicate_const)

lemma Finish_total: "Finish st objectIndex \<noteq> None"
  by (simp add: Finish_def Let_def)

section \<open>Properties of the MinMaxAccumulator\<close>

lemma flt_irrefl [simp]: "\<not> flt a a"
  by (cases a) simp_all

lemma flt_trans: "flt a b \<Longrightarrow> flt b c \<Longrightarrow> flt a c"
  by (cases a; cases b; cases c) simp_all

lemma flt_asym: "flt a b \<Longrightarrow> \<not> flt b a"
  by (cases a; cases b) simp_all

lemma flt_linear: "a \<noteq> NaN \<Longrightarrow> b \<noteq> NaN \<Longrightarrow> flt a b \<or> a = b \<or> flt b a"
  by (cases a; cases b) auto

lemma flt_NaN [simp]: "\<not> flt a NaN" "\<not> flt NaN a"
  by (cases a; simp)+

lemma not_flt_trans:
  "b \<noteq> NaN \<Longrightarrow> \<not> flt b a \<Longrightarrow> \<not> flt c b \<Longrightarrow> \<not> flt c a"
  by (cases a; cases b; cases c) simp_all

lemma std_min_NaN [simp]: "std_min a NaN = a"
  by (simp add: std_min_def)

lemma std_max_NaN [simp]: "std_max a NaN = a"
  by (simp add: std_max_def)

lemma MinMax_Push_NaN [simp]: "MinMax_Push a NaN = a"
  by (simp add: MinMax_Push_def)

text \<open>The pair overload against two calls of the single one.\<close>

lemma MinMax_Push2_numbers:
  assumes "x \<noteq> NaN" "y \<noteq> NaN"
  shows "MinMax_Push2 a x y = MinMax_Push (MinMax_Push a x) y"
proof -
  have "std_min (std_min m x) y = (if flt y x then std_min m y else std_min m x)"
    "std_max (std_max m x) y = (if flt y x then std_max m x else std_max m y)" for m
    using assms by (cases m; cases x; cases y; simp add: std_min_def std_max_def)+
  then show ?thesis
    by (simp add: MinMax_Push2_def MinMax_Push_def)
qed

lemma MinMax_Push2_NaN_left:
  "MinMax_Push2 a NaN y = MinMax_Push (MinMax_Push a NaN) y \<longleftrightarrow> \<not> flt y (mm_min a)"
  by (auto simp: MinMax_Push2_def MinMax_Push_def std_min_def)

lemma MinMax_Push2_NaN_right:
  "MinMax_Push2 a x NaN = MinMax_Push (MinMax_Push a x) NaN \<longleftrightarrow> \<not> flt (mm_max a) x"
  by (auto simp: MinMax_Push2_def MinMax_Push_def std_max_def)


subsection \<open>The extrema after a sequence of calls\<close>

lemma foldl_std_min:
  assumes "m0 \<noteq> NaN" "\<forall>v \<in> set vs. v \<noteq> NaN"
  shows "(foldl std_min m0 vs = m0 \<or> foldl std_min m0 vs \<in> set vs)
    \<and> \<not> flt m0 (foldl std_min m0 vs)
    \<and> (\<forall>v \<in> set vs. \<not> flt v (foldl std_min m0 vs))
    \<and> foldl std_min m0 vs \<noteq> NaN"
  using assms
proof (induction vs arbitrary: m0)
  case Nil
  then show ?case by simp
next
  case (Cons v vs)
  define m1 where "m1 = std_min m0 v"
  have v: "v \<noteq> NaN" using Cons.prems by simp
  have m1: "m1 = m0 \<or> m1 = v" "m1 \<noteq> NaN" "\<not> flt m0 m1" "\<not> flt v m1"
    using Cons.prems(1) v flt_asym [of v m0] by (auto simp: m1_def std_min_def)
  have "\<forall>v \<in> set vs. v \<noteq> NaN" using Cons.prems by simp
  from Cons.IH [OF m1(2) this]
  have IH: "foldl std_min m1 vs = m1 \<or> foldl std_min m1 vs \<in> set vs"
    "\<not> flt m1 (foldl std_min m1 vs)" "\<forall>v \<in> set vs. \<not> flt v (foldl std_min m1 vs)"
    "foldl std_min m1 vs \<noteq> NaN"
    by blast+
  have "\<not> flt m0 (foldl std_min m1 vs)" "\<not> flt v (foldl std_min m1 vs)"
    using not_flt_trans [OF m1(2) IH(2)] m1(3,4) by blast+
  then show ?case
    using IH m1(1) by (auto simp: m1_def [symmetric])
qed

lemma foldl_std_max:
  assumes "m0 \<noteq> NaN" "\<forall>v \<in> set vs. v \<noteq> NaN"
  shows "(foldl std_max m0 vs = m0 \<or> foldl std_max m0 vs \<in> set vs)
    \<and> \<not> flt (foldl std_max m0 vs) m0
    \<and> (\<forall>v \<in> set vs. \<not> flt (foldl std_max m0 vs) v)
    \<and> foldl std_max m0 vs \<noteq> NaN"
  using assms
proof (induction vs arbitrary: m0)
  case Nil
  then show ?case by simp
next
  case (Cons v vs)
  define m1 where "m1 = std_max m0 v"
  have v: "v \<noteq> NaN" using Cons.prems by simp
  have m1: "m1 = m0 \<or> m1 = v" "m1 \<noteq> NaN" "\<not> flt m1 m0" "\<not> flt m1 v"
    using Cons.prems(1) v flt_asym [of m0 v] by (auto simp: m1_def std_max_def)
  have "\<forall>v \<in> set vs. v \<noteq> NaN" using Cons.prems by simp
  from Cons.IH [OF m1(2) this]
  have IH: "foldl std_max m1 vs = m1 \<or> foldl std_max m1 vs \<in> set vs"
    "\<not> flt (foldl std_max m1 vs) m1" "\<forall>v \<in> set vs. \<not> flt (foldl std_max m1 vs) v"
    "foldl std_max m1 vs \<noteq> NaN"
    by blast+
  have "\<not> flt (foldl std_max m1 vs) m0" "\<not> flt (foldl std_max m1 vs) v"
    using not_flt_trans [OF m1(2) _ IH(2)] m1(3,4) by blast+
  then show ?case
    using IH m1(1) by (auto simp: m1_def [symmetric])
qed

lemma foldl_std_min_filter:
  "foldl std_min m (filter (\<lambda>v. v \<noteq> NaN) vs) = foldl std_min m vs"
  by (induction vs arbitrary: m) simp_all

lemma foldl_std_max_filter:
  "foldl std_max m (filter (\<lambda>v. v \<noteq> NaN) vs) = foldl std_max m vs"
  by (induction vs arbitrary: m) simp_all

lemma MinMax_call_fields:
  assumes "\<not> NaN_in_pair c"
  shows "mm_min (MinMax_call a c) = foldl std_min (mm_min a) (pushed c)"
    "mm_max (MinMax_call a c) = foldl std_max (mm_max a) (pushed c)"
  using assms
  by (cases c; simp add: MinMax_Push2_numbers; simp add: MinMax_Push_def)+

lemma MinMax_run_fields:
  assumes "\<forall>c \<in> set cs. \<not> NaN_in_pair c"
  shows "mm_min (MinMax_run a cs) = foldl std_min (mm_min a) (pushed_numbers cs)"
    "mm_max (MinMax_run a cs) = foldl std_max (mm_max a) (pushed_numbers cs)"
proof -
  have "mm_min (foldl MinMax_call a cs) = foldl std_min (mm_min a) (concat (map pushed cs))
      \<and> mm_max (foldl MinMax_call a cs) = foldl std_max (mm_max a) (concat (map pushed cs))"
    using assms
  proof (induction cs arbitrary: a)
    case Nil
    then show ?case by simp
  next
    case (Cons c cs)
    then show ?case by (simp add: MinMax_call_fields)
  qed
  then show "mm_min (MinMax_run a cs) = foldl std_min (mm_min a) (pushed_numbers cs)"
    "mm_max (MinMax_run a cs) = foldl std_max (mm_max a) (pushed_numbers cs)"
    by (simp_all add: MinMax_run_def pushed_numbers_def pushed_values_def
        foldl_std_min_filter foldl_std_max_filter)
qed

lemma is_double_bounds:
  assumes "is_double (Finite x)"
  shows "- DBL_MAX \<le> x" "x \<le> DBL_MAX"
  using assms binary64_Finite_le [of x x] by (simp_all add: is_double_def abs_le_iff)

lemma MinMax_Minimum:
  assumes "\<forall>v \<in> set (pushed_values cs). is_double v" "\<forall>c \<in> set cs. \<not> NaN_in_pair c"
  shows "(\<exists>v \<in> set (pushed_numbers cs). v \<noteq> PInf)
           \<longrightarrow> least (pushed_numbers cs) (Minimum (MinMax_run MinMax_init cs))"
    "(\<forall>v \<in> set (pushed_numbers cs). v = PInf)
           \<longrightarrow> Minimum (MinMax_run MinMax_init cs) = Finite DBL_MAX"
proof -
  let ?vs = "pushed_numbers cs"
  let ?m = "foldl std_min (Finite DBL_MAX) ?vs"
  have m: "Minimum (MinMax_run MinMax_init cs) = ?m"
    using MinMax_run_fields(1) [OF assms(2)] by (simp add: Minimum_def MinMax_init_def)
  have nn: "\<forall>v \<in> set ?vs. v \<noteq> NaN" by (simp add: pushed_numbers_def)
  from foldl_std_min [OF _ nn, of "Finite DBL_MAX"]
  have inv: "?m = Finite DBL_MAX \<or> ?m \<in> set ?vs" "\<forall>v \<in> set ?vs. \<not> flt v ?m"
    by simp_all
  show "(\<exists>v \<in> set ?vs. v \<noteq> PInf) \<longrightarrow> least ?vs (Minimum (MinMax_run MinMax_init cs))"
  proof
    assume "\<exists>v \<in> set ?vs. v \<noteq> PInf"
    then obtain v where v: "v \<in> set ?vs" "v \<noteq> PInf" by blast
    have "?m \<in> set ?vs"
    proof (cases "?m \<in> set ?vs")
      case True
      then show ?thesis .
    next
      case False
      then have e: "?m = Finite DBL_MAX" using inv(1) by blast
      have d: "is_double v" "v \<noteq> NaN" "\<not> flt v (Finite DBL_MAX)"
        using v(1) assms(1) inv(2) e by (auto simp: pushed_numbers_def)
      then have "v = Finite DBL_MAX"
        using v(2) is_double_bounds(2) [of "case v of Finite x \<Rightarrow> x"] by (cases v) auto
      then show ?thesis using v(1) e by simp
    qed
    then show "least ?vs (Minimum (MinMax_run MinMax_init cs))"
      using inv(2) by (simp add: least_def m)
  qed
  show "(\<forall>v \<in> set ?vs. v = PInf) \<longrightarrow> Minimum (MinMax_run MinMax_init cs) = Finite DBL_MAX"
  proof
    assume a: "\<forall>v \<in> set ?vs. v = PInf"
    have "foldl std_min (Finite DBL_MAX) vs = Finite DBL_MAX" if "\<forall>v \<in> set vs. v = PInf" for vs
      using that by (induction vs) (simp_all add: std_min_def)
    from this [OF a] show "Minimum (MinMax_run MinMax_init cs) = Finite DBL_MAX"
      by (simp add: m)
  qed
qed

lemma MinMax_Maximum:
  assumes "\<forall>v \<in> set (pushed_values cs). is_double v" "\<forall>c \<in> set cs. \<not> NaN_in_pair c"
  shows "(\<exists>v \<in> set (pushed_numbers cs). v \<noteq> NInf)
           \<longrightarrow> greatest (pushed_numbers cs) (Maximum (MinMax_run MinMax_init cs))"
    "(\<forall>v \<in> set (pushed_numbers cs). v = NInf)
           \<longrightarrow> Maximum (MinMax_run MinMax_init cs) = Finite (- DBL_MAX)"
proof -
  let ?vs = "pushed_numbers cs"
  let ?m = "foldl std_max (Finite (- DBL_MAX)) ?vs"
  have m: "Maximum (MinMax_run MinMax_init cs) = ?m"
    using MinMax_run_fields(2) [OF assms(2)] by (simp add: Maximum_def MinMax_init_def)
  have nn: "\<forall>v \<in> set ?vs. v \<noteq> NaN" by (simp add: pushed_numbers_def)
  from foldl_std_max [OF _ nn, of "Finite (- DBL_MAX)"]
  have inv: "?m = Finite (- DBL_MAX) \<or> ?m \<in> set ?vs" "\<forall>v \<in> set ?vs. \<not> flt ?m v"
    by simp_all
  show "(\<exists>v \<in> set ?vs. v \<noteq> NInf) \<longrightarrow> greatest ?vs (Maximum (MinMax_run MinMax_init cs))"
  proof
    assume "\<exists>v \<in> set ?vs. v \<noteq> NInf"
    then obtain v where v: "v \<in> set ?vs" "v \<noteq> NInf" by blast
    have "?m \<in> set ?vs"
    proof (cases "?m \<in> set ?vs")
      case True
      then show ?thesis .
    next
      case False
      then have e: "?m = Finite (- DBL_MAX)" using inv(1) by blast
      have d: "is_double v" "v \<noteq> NaN" "\<not> flt (Finite (- DBL_MAX)) v"
        using v(1) assms(1) inv(2) e by (auto simp: pushed_numbers_def)
      then have "v = Finite (- DBL_MAX)"
        using v(2) is_double_bounds(1) [of "case v of Finite x \<Rightarrow> x"] by (cases v) auto
      then show ?thesis using v(1) e by simp
    qed
    then show "greatest ?vs (Maximum (MinMax_run MinMax_init cs))"
      using inv(2) by (simp add: greatest_def m)
  qed
  show "(\<forall>v \<in> set ?vs. v = NInf) \<longrightarrow> Maximum (MinMax_run MinMax_init cs) = Finite (- DBL_MAX)"
  proof
    assume a: "\<forall>v \<in> set ?vs. v = NInf"
    have "foldl std_max (Finite (- DBL_MAX)) vs = Finite (- DBL_MAX)"
      if "\<forall>v \<in> set vs. v = NInf" for vs
      using that by (induction vs) (simp_all add: std_max_def)
    from this [OF a] show "Maximum (MinMax_run MinMax_init cs) = Finite (- DBL_MAX)"
      by (simp add: m)
  qed
qed


text \<open>
  Claim C7.  The pair overload \<^verbatim>\<open>Push( x, y )\<close> leaves the accumulator in the state of
  \<^verbatim>\<open>Push( x )\<close> followed by \<^verbatim>\<open>Push( y )\<close> exactly when neither an operand \<open>x\<close> that is a
  NaN hides a \<open>y\<close> below the minimum nor an operand \<open>y\<close> that is a NaN hides an \<open>x\<close> above
  the maximum; in particular whenever both operands are numbers.  After a sequence of calls
  on a default-constructed accumulator, none of them the pair overload with a NaN operand,
  \<^verbatim>\<open>Minimum()\<close> is a least one of the numbers pushed unless all of them are \<open>+\<infinity>\<close>, when it is
  still the largest double, and \<^verbatim>\<open>Maximum()\<close> is a greatest one unless all of them are
  \<open>-\<infinity>\<close>, when it is still the lowest double.  After \<^verbatim>\<open>Push( 3.0 )\<close>, \<^verbatim>\<open>Push( 7.0, 1.0 )\<close>,
  \<^verbatim>\<open>Push( 5.0 )\<close> the minimum is 1 and the maximum is 7.
\<close>

theorem MinMax_pair_push_and_extrema:
  assumes "\<forall>v \<in> set (pushed_values cs). is_double v" "\<forall>c \<in> set cs. \<not> NaN_in_pair c"
  shows "(\<forall>a x y. MinMax_Push2 a x y = MinMax_Push (MinMax_Push a x) y
            \<longleftrightarrow> (x = NaN \<longrightarrow> \<not> flt y (mm_min a)) \<and> (y = NaN \<longrightarrow> \<not> flt (mm_max a) x))
    \<and> ((\<exists>v \<in> set (pushed_numbers cs). v \<noteq> PInf)
          \<longrightarrow> least (pushed_numbers cs) (Minimum (MinMax_run MinMax_init cs)))
    \<and> ((\<forall>v \<in> set (pushed_numbers cs). v = PInf)
          \<longrightarrow> Minimum (MinMax_run MinMax_init cs) = Finite DBL_MAX)
    \<and> ((\<exists>v \<in> set (pushed_numbers cs). v \<noteq> NInf)
          \<longrightarrow> greatest (pushed_numbers cs) (Maximum (MinMax_run MinMax_init cs)))
    \<and> ((\<forall>v \<in> set (pushed_numbers cs). v = NInf)
          \<longrightarrow> Maximum (MinMax_run MinMax_init cs) = Finite (- DBL_MAX))
    \<and> Minimum (MinMax_run MinMax_init
          [Single (Finite 3), Pair (Finite 7) (Finite 1), Single (Finite 5)]) = Finite 1
    \<and> Maximum (MinMax_run MinMax_init
          [Single (Finite 3), Pair (Finite 7) (Finite 1), Single (Finite 5)]) = Finite 7"
proof -
  have 1: "MinMax_Push2 a x y = MinMax_Push (MinMax_Push a x) y
            \<longleftrightarrow> (x = NaN \<longrightarrow> \<not> flt y (mm_min a)) \<and> (y = NaN \<longrightarrow> \<not> flt (mm_max a) x)" for a x y
  proof (cases "x = NaN")
    case True
    then show ?thesis using MinMax_Push2_NaN_left [of a y] by simp
  next
    case x: False
    show ?thesis
    proof (cases "y = NaN")
      case True
      then show ?thesis using MinMax_Push2_NaN_right [of a x] x by simp
    next
      case False
      then show ?thesis using MinMax_Push2_numbers [OF x False, of a] x by simp
    qed
  qed
  have 2: "Minimum (MinMax_run MinMax_init
          [Single (Finite 3), Pair (Finite 7) (Finite 1), Single (Finite 5)]) = Finite 1"
    "Maximum (MinMax_run MinMax_init
          [Single (Finite 3), Pair (Finite 7) (Finite 1), Single (Finite 5)]) = Finite 7"
    by (simp_all add: Minimum_def Maximum_def MinMax_run_def MinMax_init_def MinMax_Push_def
        MinMax_Push2_def std_min_def std_max_def DBL_MAX_def)
  from 1 2 MinMax_Minimum [OF assms] MinMax_Maximum [OF assms] show ?thesis
    by blast
qed

theorem MinMax_pair_push_and_extrema_witness:
  "is_double (Finite 3) \<and> is_double (Finite 7) \<and> is_double (Finite 1) \<and> is_double (Finite 5)
   \<and> is_double NInf
   \<and> pushed_numbers [Single (Finite 3), Pair (Finite 7) NInf, Single NaN, Single (Finite 5)]
       = [Finite 3, Finite 7, NInf, Finite 5]
   \<and> Minimum (MinMax_run MinMax_init
        [Single (Finite 3), Pair (Finite 7) NInf, Single NaN, Single (Finite 5)]) = NInf
   \<and> Maximum (MinMax_run MinMax_init
        [Single (Finite 3), Pair (Finite 7) NInf, Single NaN, Single (Finite 5)]) = Finite 7
   \<and> MinMax_Push2 MinMax_init (Finite 7) NInf
       = MinMax_Push (MinMax_Push MinMax_init (Finite 7)) NInf"
proof -
  let ?cs = "[Single (Finite 3), Pair (Finite 7) NInf, Single NaN, Single (Finite 5)]"
  have d: "is_double (Finite 3)" "is_double (Finite 7)" "is_double (Finite 1)"
    "is_double (Finite 5)"
    by (simp_all add: is_double_numeral)
  have vs: "pushed_numbers ?cs = [Finite 3, Finite 7, NInf, Finite 5]"
    by (simp add: pushed_numbers_def pushed_values_def)
  have h: "\<forall>v \<in> set (pushed_values ?cs). is_double v" "\<forall>c \<in> set ?cs. \<not> NaN_in_pair c"
    using d by (simp_all add: pushed_values_def)
  note t = MinMax_pair_push_and_extrema [OF h]
  have e: "\<exists>v \<in> set (pushed_numbers ?cs). v \<noteq> PInf" "\<exists>v \<in> set (pushed_numbers ?cs). v \<noteq> NInf"
    unfolding vs by simp_all
  from t e have l: "least (pushed_numbers ?cs) (Minimum (MinMax_run MinMax_init ?cs))"
    and g: "greatest (pushed_numbers ?cs) (Maximum (MinMax_run MinMax_init ?cs))"
    by blast+
  from l have "Minimum (MinMax_run MinMax_init ?cs) = NInf"
    unfolding vs least_def by auto
  moreover from g have "Maximum (MinMax_run MinMax_init ?cs) = Finite 7"
    unfolding vs greatest_def by auto
  moreover from t have "MinMax_Push2 MinMax_init (Finite 7) NInf
       = MinMax_Push (MinMax_Push MinMax_init (Finite 7)) NInf"
    by simp
  ultimately show ?thesis
    using d vs by simp
qed

text \<open>
  As stated, for every sequence of pushes, the claim fails.  With a NaN as its first
  operand the pair overload updates the maximum only, whereas the two single calls also
  lower the minimum; and a push of \<open>+\<infinity>\<close> loses against the initial minimum, the largest
  finite double, as a push of \<open>-\<infinity>\<close> loses against the initial maximum.
\<close>

theorem MinMax_counterexample:
  "MinMax_Push2 MinMax_init NaN (Finite 1)
     = \<lparr>mm_min = Finite DBL_MAX, mm_max = Finite 1\<rparr>
   \<and> MinMax_Push (MinMax_Push MinMax_init NaN) (Finite 1)
     = \<lparr>mm_min = Finite 1, mm_max = Finite 1\<rparr>
   \<and> is_double PInf
   \<and> pushed_values [Single PInf] = [PInf]
   \<and> Minimum (MinMax_run MinMax_init [Single PInf]) = Finite DBL_MAX
   \<and> Maximum (MinMax_run MinMax_init [Single PInf]) = PInf
   \<and> pushed_values [Single NInf] = [NInf]
   \<and> Minimum (MinMax_run MinMax_init [Single NInf]) = NInf
   \<and> Maximum (MinMax_run MinMax_init [Single NInf]) = Finite (- DBL_MAX)"
  by (simp add: Minimum_def Maximum_def MinMax_run_def MinMax_init_def MinMax_Push_def
      MinMax_Push2_def std_min_def std_max_def DBL_MAX_def pushed_values_def)

end
